theory Spec2Isabelle
  imports Main "HOL-Library.AList"
begin

section \<open>The multi-layer encoder and the cycle batch samplers of pystiche\<close>

text \<open>
  A shallow embedding of \<^verbatim>\<open>pystiche/enc/multi_layer_encoder.py\<close> and
  \<^verbatim>\<open>pystiche/image/data/sampler.py\<close>.

  Tensors are values of an arbitrary type \<open>'t\<close> and tensor keys values of an arbitrary
  type \<open>'k\<close>; \<^verbatim>\<open>pystiche.TensorKey\<close> is not part of the two files and is a
  parameter \<open>TensorKey :: 't \<Rightarrow> 'k\<close> of every function that calls it. Keys are compared
  with \<open>=\<close>, as \<^verbatim>\<open>key == input_key\<close> does.

  A child module is a function from a tensor to an error or a tensor: calling a module
  may raise. Python dictionaries are association lists with unique keys in insertion
  order (\<open>AList.update\<close> overwrites in place or appends, as \<^verbatim>\<open>d[k] = v\<close> does).
  Python sets of layer names are lists; the order in which a set is iterated is not
  fixed by Python, so the theorems hold for every order.
\<close>

subsection \<open>Errors\<close>

text \<open>
  \<open>ValueError\<close> is the error of \<^verbatim>\<open>_verify_layer\<close> (the message, which names the
  layer, is left out); \<open>IndexError\<close> is \<^verbatim>\<open>[-1]\<close> on an empty list; \<open>KeyError\<close> a
  missing dictionary key; \<open>RuntimeError\<close> and \<open>OtherError\<close> carry the message of an
  exception raised by a collaborator (a child module, the guide propagator) or by the
  interpreter.
\<close>

datatype error = ValueError | IndexError | KeyError | RuntimeError string | OtherError string

subsection \<open>The encoder state\<close>

record ('t, 'k) encoder =
  modules :: "(string \<times> ('t \<Rightarrow> error + 't)) list"
  registered_layers :: "string list"
  cache :: "((string \<times> 'k) \<times> 't) list"

text \<open>
  \<open>modules\<close> is the ordered dictionary \<^verbatim>\<open>_modules\<close> of the children: its keys, the
  names of the layers, are distinct, and the modules are taken to be distinct objects,
  none of them \<^verbatim>\<open>None\<close>, so that \<^verbatim>\<open>named_children()\<close> lists every item of the
  dictionary. \<open>registered_layers\<close> is a set, held as a list without repetition.

  \<^verbatim>\<open>__init__\<close>: the children in the order given, no registered layer, an empty cache.
\<close>

definition MultiLayerEncoder :: "(string \<times> ('t \<Rightarrow> error + 't)) list \<Rightarrow> ('t, 'k) encoder" where
  "MultiLayerEncoder ms = \<lparr>modules = ms, registered_layers = [], cache = []\<rparr>"

definition named_children :: "('t, 'k) encoder \<Rightarrow> (string \<times> ('t \<Rightarrow> error + 't)) list" where
  "named_children e = modules e"

definition children_names :: "('t, 'k) encoder \<Rightarrow> string list" where
  "children_names e = map fst (named_children e)"

text \<open>\<^verbatim>\<open>__contains__\<close>.\<close>

definition contains :: "('t, 'k) encoder \<Rightarrow> string \<Rightarrow> bool" where
  "contains e name = (name \<in> set (children_names e))"

definition verify_layer :: "('t, 'k) encoder \<Rightarrow> string \<Rightarrow> error + unit" where
  "verify_layer e layer = (if \<not> contains e layer then Inl ValueError else Inr ())"

text \<open>The loop \<^verbatim>\<open>for layer in layers: self._verify_layer(layer)\<close>.\<close>

fun verify_layers :: "('t, 'k) encoder \<Rightarrow> string list \<Rightarrow> error + unit" where
  "verify_layers e [] = Inr ()"
| "verify_layers e (layer # layers) =
     (case verify_layer e layer of
        Inl err \<Rightarrow> Inl err
      | Inr _ \<Rightarrow> verify_layers e layers)"

text \<open>
  \<^verbatim>\<open>list.index\<close>: the position of the first occurrence. Python raises when the
  element is absent; the source calls it on verified layers only, and the model returns
  the length of the list there.
\<close>

fun index :: "'a list \<Rightarrow> 'a \<Rightarrow> nat" where
  "index [] x = 0"
| "index (y # ys) x = (if y = x then 0 else Suc (index ys x))"

text \<open>
  \<^verbatim>\<open>sorted(set(layers), key=list(self.children_names()).index)[-1]\<close>: \<open>remdups\<close> is
  \<^verbatim>\<open>set(...)\<close>, \<open>sort_key\<close> is a stable sort as \<^verbatim>\<open>sorted\<close> is, and \<^verbatim>\<open>[-1]\<close> on
  an empty list raises.
\<close>

definition extract_deepest_layer :: "('t, 'k) encoder \<Rightarrow> string list \<Rightarrow> error + string" where
  "extract_deepest_layer e layers =
     (case verify_layers e layers of
        Inl err \<Rightarrow> Inl err
      | Inr _ \<Rightarrow>
          (case sort_key (index (children_names e)) (remdups layers) of
             [] \<Rightarrow> Inl IndexError
           | s # ss \<Rightarrow> Inr (last (s # ss))))"

definition named_children_to ::
  "('t, 'k) encoder \<Rightarrow> string \<Rightarrow> bool \<Rightarrow> error + (string \<times> ('t \<Rightarrow> error + 't)) list" where
  "named_children_to e layer include_last =
     (case verify_layer e layer of
        Inl err \<Rightarrow> Inl err
      | Inr _ \<Rightarrow>
          (let idx = index (children_names e) layer;
               idx = (if include_last then idx + 1 else idx)
           in Inr (take idx (named_children e))))"

definition named_children_from ::
  "('t, 'k) encoder \<Rightarrow> string \<Rightarrow> bool \<Rightarrow> error + (string \<times> ('t \<Rightarrow> error + 't)) list" where
  "named_children_from e layer include_first =
     (case verify_layer e layer of
        Inl err \<Rightarrow> Inl err
      | Inr _ \<Rightarrow>
          (let idx = index (children_names e) layer;
               idx = (if \<not> include_first then idx + 1 else idx)
           in Inr (drop idx (named_children e))))"

subsection \<open>forward\<close>

text \<open>
  The loop of \<^verbatim>\<open>forward\<close>:
  \<^verbatim>\<open>input = storage[(name, input_key)] = module(input)\<close> for each child. The result
  is the storage after the loop, or the error a module raised, together with the names
  of the modules that were called, in call order.
\<close>

fun run_children ::
  "(string \<times> ('t \<Rightarrow> error + 't)) list \<Rightarrow> 'k \<Rightarrow> 't \<Rightarrow> ((string \<times> 'k) \<times> 't) list
     \<Rightarrow> (error + ((string \<times> 'k) \<times> 't) list) \<times> string list" where
  "run_children [] input_key input storage = (Inr storage, [])"
| "run_children ((name, module) # rest) input_key input storage =
     (case module input of
        Inl err \<Rightarrow> (Inl err, [name])
      | Inr out \<Rightarrow>
          (case run_children rest input_key out (AList.update (name, input_key) out storage) of
             (res, calls) \<Rightarrow> (res, name # calls)))"

text \<open>\<^verbatim>\<open>d.update(other)\<close>: every item of \<open>other\<close>, in its order, is written into \<open>d\<close>.\<close>

definition dict_update :: "('a \<times> 'b) list \<Rightarrow> ('a \<times> 'b) list \<Rightarrow> ('a \<times> 'b) list" where
  "dict_update d other = fold (\<lambda>(k, v). AList.update k v) other d"

text \<open>\<^verbatim>\<open>dict(pairs)\<close>.\<close>

definition dict :: "('a \<times> 'b) list \<Rightarrow> ('a \<times> 'b) list" where
  "dict pairs = dict_update [] pairs"

text \<open>\<^verbatim>\<open>[storage[(name, input_key)] for name in layers]\<close>; a missing key raises.\<close>

fun lookup_layers :: "((string \<times> 'k) \<times> 't) list \<Rightarrow> 'k \<Rightarrow> string list \<Rightarrow> error + 't list" where
  "lookup_layers storage input_key [] = Inr []"
| "lookup_layers storage input_key (name # layers) =
     (case map_of storage (name, input_key) of
        None \<Rightarrow> Inl KeyError
      | Some v \<Rightarrow>
          (case lookup_layers storage input_key layers of
             Inl err \<Rightarrow> Inl err
           | Inr vs \<Rightarrow> Inr (v # vs)))"

text \<open>
  \<^verbatim>\<open>forward\<close> returns the tuple of encodings or the error raised, the encoder after
  the call, and the names of the modules called, in call order.
\<close>

definition forward ::
  "('t, 'k) encoder \<Rightarrow> ('t \<Rightarrow> 'k) \<Rightarrow> 't \<Rightarrow> string list \<Rightarrow> bool
     \<Rightarrow> (error + 't list) \<times> ('t, 'k) encoder \<times> string list" where
  "forward e TensorKey input layers store =
     (let storage = cache e;
          input_key = TensorKey input;
          stored_layers = [name. (name, key) \<leftarrow> map fst storage, key = input_key];
          diff_layers = filter (\<lambda>name. name \<notin> set stored_layers) (remdups layers)
      in if diff_layers \<noteq> [] then
           (case extract_deepest_layer e diff_layers of
              Inl err \<Rightarrow> (Inl err, e, [])
            | Inr deepest_layer \<Rightarrow>
                (case named_children_to e deepest_layer True of
                   Inl err \<Rightarrow> (Inl err, e, [])
                 | Inr children \<Rightarrow>
                     (case run_children children input_key input storage of
                        (Inl err, calls) \<Rightarrow> (Inl err, e, calls)
                      | (Inr storage', calls) \<Rightarrow>
                          (lookup_layers storage' input_key layers,
                           (if store then e\<lparr>cache := dict_update (cache e) storage'\<rparr> else e),
                           calls))))
         else (lookup_layers storage input_key layers, e, []))"

subsection \<open>Registering, encoding, clearing, trimming\<close>

text \<open>
  \<^verbatim>\<open>extract_single_layer_encoder\<close>; the adapter returned is the pair of the encoder
  and the layer, of which the layer is returned here.
\<close>

definition extract_single_layer_encoder ::
  "('t, 'k) encoder \<Rightarrow> string \<Rightarrow> (error + string) \<times> ('t, 'k) encoder" where
  "extract_single_layer_encoder e layer =
     (case verify_layer e layer of
        Inl err \<Rightarrow> (Inl err, e)
      | Inr _ \<Rightarrow> (Inr layer, e\<lparr>registered_layers := List.insert layer (registered_layers e)\<rparr>))"

definition encode ::
  "('t, 'k) encoder \<Rightarrow> ('t \<Rightarrow> 'k) \<Rightarrow> 't \<Rightarrow> (error + unit) \<times> ('t, 'k) encoder \<times> string list" where
  "encode e TensorKey input =
     (if registered_layers e = [] then (Inr (), e, [])
      else
        (let key = TensorKey input;
             keys = map (\<lambda>layer. (layer, key)) (registered_layers e)
         in case forward e TensorKey input (registered_layers e) True of
              (Inl err, e', calls) \<Rightarrow> (Inl err, e', calls)
            | (Inr encs, e', calls) \<Rightarrow> (Inr (), e'\<lparr>cache := dict (zip keys encs)\<rparr>, calls)))"

definition clear_cache :: "('t, 'k) encoder \<Rightarrow> ('t, 'k) encoder" where
  "clear_cache e = e\<lparr>cache := []\<rparr>"

text \<open>The loop \<^verbatim>\<open>del self._modules[name]\<close> of \<^verbatim>\<open>trim\<close>; a missing name raises.\<close>

fun del_modules ::
  "(string \<times> ('t \<Rightarrow> error + 't)) list \<Rightarrow> ('t, 'k) encoder \<Rightarrow> (error + unit) \<times> ('t, 'k) encoder" where
  "del_modules [] e = (Inr (), e)"
| "del_modules ((name, module) # rest) e =
     (if name \<in> fst ` set (modules e)
      then del_modules rest (e\<lparr>modules := AList.delete name (modules e)\<rparr>)
      else (Inl KeyError, e))"

definition trim :: "('t, 'k) encoder \<Rightarrow> string list option \<Rightarrow> (error + unit) \<times> ('t, 'k) encoder" where
  "trim e layers =
     (let layers = (case layers of None \<Rightarrow> registered_layers e | Some ls \<Rightarrow> ls)
      in case extract_deepest_layer e layers of
           Inl err \<Rightarrow> (Inl err, e)
         | Inr deepest_layer \<Rightarrow>
             (case named_children_from e deepest_layer False of
                Inl err \<Rightarrow> (Inl err, e)
              | Inr children \<Rightarrow> del_modules children e))"

subsection \<open>Guide propagation\<close>

text \<open>
  \<^verbatim>\<open>pystiche.enc.guides.propagate_guide\<close> is not part of the two files; it is the
  parameter \<open>propagate\<close>, called with the module, the guide, the method and
  \<^verbatim>\<open>allow_empty\<close>. The \<^verbatim>\<open>except RuntimeError as error: raise error\<close> clause is the
  first error branch. The loop fills the dictionary \<^verbatim>\<open>guides\<close>.
\<close>

fun propagate_children ::
  "(('t \<Rightarrow> error + 't) \<Rightarrow> 't \<Rightarrow> string \<Rightarrow> bool \<Rightarrow> error + 't)
     \<Rightarrow> (string \<times> ('t \<Rightarrow> error + 't)) list \<Rightarrow> 't \<Rightarrow> string \<Rightarrow> bool \<Rightarrow> (string \<times> 't) list
     \<Rightarrow> error + (string \<times> 't) list" where
  "propagate_children propagate [] guide method allow_empty guides = Inr guides"
| "propagate_children propagate ((name, module) # rest) guide method allow_empty guides =
     (case propagate module guide method allow_empty of
        Inl (RuntimeError msg) \<Rightarrow> Inl (RuntimeError msg)
      | Inl err \<Rightarrow> Inl err
      | Inr g \<Rightarrow> propagate_children propagate rest g method allow_empty (AList.update name g guides))"

text \<open>\<^verbatim>\<open>[guides[name] for name in layers]\<close>.\<close>

fun lookup_guides :: "(string \<times> 't) list \<Rightarrow> string list \<Rightarrow> error + 't list" where
  "lookup_guides guides [] = Inr []"
| "lookup_guides guides (name # layers) =
     (case map_of guides name of
        None \<Rightarrow> Inl KeyError
      | Some g \<Rightarrow>
          (case lookup_guides guides layers of
             Inl err \<Rightarrow> Inl err
           | Inr gs \<Rightarrow> Inr (g # gs)))"

definition propagate_guide ::
  "('t, 'k) encoder \<Rightarrow> (('t \<Rightarrow> error + 't) \<Rightarrow> 't \<Rightarrow> string \<Rightarrow> bool \<Rightarrow> error + 't)
     \<Rightarrow> 't \<Rightarrow> string list \<Rightarrow> string \<Rightarrow> bool \<Rightarrow> error + 't list" where
  "propagate_guide e propagate guide layers method allow_empty =
     (case extract_deepest_layer e layers of
        Inl err \<Rightarrow> Inl err
      | Inr deepest_layer \<Rightarrow>
          (case named_children_to e deepest_layer True of
             Inl err \<Rightarrow> Inl err
           | Inr children \<Rightarrow>
               (case propagate_children propagate children guide method allow_empty [] of
                  Inl err \<Rightarrow> Inl err
                | Inr guides \<Rightarrow> lookup_guides guides layers)))"

subsection \<open>The cycle batch samplers\<close>

text \<open>
  A data source is used through \<^verbatim>\<open>len\<close> only and is modelled by its length.
  \<^verbatim>\<open>__init__\<close> stores the two arguments; the constructor of the base class
  \<^verbatim>\<open>Sampler\<close> does nothing with the data source.
\<close>

record sampler =
  data_source :: nat
  batch_size :: int

definition InfiniteCycleBatchSampler :: "nat \<Rightarrow> int \<Rightarrow> error + sampler" where
  "InfiniteCycleBatchSampler ds bs = Inr \<lparr>data_source = ds, batch_size = bs\<rparr>"





definition infinite_len :: "sampler \<Rightarrow> int" where
  "infinite_len s = - 1"





subsection \<open>Reference definitions\<close>

text \<open>
  The two notions that the specification uses to say what the encoder returns, written
  after its words and independent of the loops above. The activation of a layer for an
  input is the result of applying the children from the first through that layer, in
  sequence, to the input.
\<close>

fun apply_children :: "(string \<times> ('t \<Rightarrow> error + 't)) list \<Rightarrow> 't \<Rightarrow> error + 't" where
  "apply_children [] x = Inr x"
| "apply_children ((name, module) # rest) x =
     (case module x of
        Inl err \<Rightarrow> Inl err
      | Inr y \<Rightarrow> apply_children rest y)"

definition activation :: "('t, 'k) encoder \<Rightarrow> string \<Rightarrow> 't \<Rightarrow> error + 't" where
  "activation e layer x =
     apply_children (take (Suc (index (children_names e) layer)) (modules e)) x"

text \<open>
  The guide of a layer is the result of applying the guide propagator successively
  through every child from the first through that layer; the first failure of the
  propagator is the result.
\<close>

fun propagate_through ::
  "(('t \<Rightarrow> error + 't) \<Rightarrow> 't \<Rightarrow> string \<Rightarrow> bool \<Rightarrow> error + 't)
     \<Rightarrow> (string \<times> ('t \<Rightarrow> error + 't)) list \<Rightarrow> 't \<Rightarrow> string \<Rightarrow> bool \<Rightarrow> error + 't" where
  "propagate_through propagate [] guide method allow_empty = Inr guide"
| "propagate_through propagate ((name, module) # rest) guide method allow_empty =
     (case propagate module guide method allow_empty of
        Inl err \<Rightarrow> Inl err
      | Inr g \<Rightarrow> propagate_through propagate rest g method allow_empty)"

definition guide_at ::
  "('t, 'k) encoder \<Rightarrow> (('t \<Rightarrow> error + 't) \<Rightarrow> 't \<Rightarrow> string \<Rightarrow> bool \<Rightarrow> error + 't)
     \<Rightarrow> 't \<Rightarrow> string \<Rightarrow> string \<Rightarrow> bool \<Rightarrow> error + 't" where
  "guide_at e propagate guide layer method allow_empty =
     propagate_through propagate (take (Suc (index (children_names e) layer)) (modules e))
       guide method allow_empty"

subsection \<open>Reachable encoder states\<close>

text \<open>
  The states that a program can bring an encoder into: it constructs the encoder from
  a dictionary of modules (whose keys are distinct) and calls its methods. The state
  after a call is the one the call leaves behind, whether it returns or raises.
\<close>

inductive reachable :: "('t \<Rightarrow> 'k) \<Rightarrow> ('t, 'k) encoder \<Rightarrow> bool" for TensorKey :: "'t \<Rightarrow> 'k" where
  init: "distinct (map fst ms) \<Longrightarrow> reachable TensorKey (MultiLayerEncoder ms)"
| after_forward:
    "reachable TensorKey e \<Longrightarrow> reachable TensorKey (fst (snd (forward e TensorKey x layers store)))"
| after_encode:
    "reachable TensorKey e \<Longrightarrow> reachable TensorKey (fst (snd (encode e TensorKey x)))"
| after_extract:
    "reachable TensorKey e \<Longrightarrow> reachable TensorKey (snd (extract_single_layer_encoder e layer))"
| after_clear_cache:
    "reachable TensorKey e \<Longrightarrow> reachable TensorKey (clear_cache e)"
| after_trim:
    "reachable TensorKey e \<Longrightarrow> reachable TensorKey (snd (trim e given))"

text \<open>
  The invariants of a state: the names of the children are distinct, the registered
  layers are a set, and the cache is coherent: an entry for a child and a key holds the
  activation of that child for every input with this key.
\<close>

definition coherent :: "('t \<Rightarrow> 'k) \<Rightarrow> ('t, 'k) encoder \<Rightarrow> bool" where
  "coherent TensorKey e =
     (\<forall>n k v x. ((n, k), v) \<in> set (cache e) \<and> contains e n \<and> TensorKey x = k \<longrightarrow>
        activation e n x = Inr v)"

definition well_formed :: "('t \<Rightarrow> 'k) \<Rightarrow> ('t, 'k) encoder \<Rightarrow> bool" where
  "well_formed TensorKey e =
     (distinct (children_names e) \<and> distinct (registered_layers e) \<and> coherent TensorKey e)"

subsection \<open>Example encoders\<close>

text \<open>
  Three children over natural numbers, used where a theorem is applied to a concrete
  input. The tensor key of a number is the number itself.
\<close>

definition abc :: "(nat, nat) encoder" where
  "abc = MultiLayerEncoder
     [(''a'', \<lambda>x. Inr (x + 1)), (''b'', \<lambda>x. Inr (2 * x)), (''c'', \<lambda>x. Inr (x + 10))]"

definition nat_key :: "nat \<Rightarrow> nat" where
  "nat_key x = x"

text \<open>The same children, the second of which raises.\<close>

definition abc_fail :: "(nat, nat) encoder" where
  "abc_fail = MultiLayerEncoder
     [(''a'', \<lambda>x. Inr (x + 1)), (''b'', \<lambda>x. Inl (RuntimeError ''b failed'')),
      (''c'', \<lambda>x. Inr (x + 10))]"

text \<open>The encoder after \<^verbatim>\<open>forward(0, ["c"], store=True)\<close>, and after \<^verbatim>\<open>trim(["b"])\<close> then.\<close>

definition abc_stored :: "(nat, nat) encoder" where
  "abc_stored = fst (snd (forward abc nat_key 0 [''c''] True))"

definition abc_trimmed :: "(nat, nat) encoder" where
  "abc_trimmed = snd (trim abc_stored (Some [''b'']))"

text \<open>
  The encoder after \<^verbatim>\<open>forward(0, ["a"], store=True)\<close>,
  \<^verbatim>\<open>forward(5, ["c"], store=True)\<close> and the extraction of the single-layer encoders
  of b and a.
\<close>

definition abc_registered :: "(nat, nat) encoder" where
  "abc_registered =
     snd (extract_single_layer_encoder
       (snd (extract_single_layer_encoder
         (fst (snd (forward (fst (snd (forward abc nat_key 0 [''a''] True))) nat_key 5 [''c'']
            True)))
         ''b''))
       ''a'')"

text \<open>
  A guide propagator over numbers: it halves the guide and raises on an empty guide
  (zero) unless \<^verbatim>\<open>allow_empty\<close> is set.
\<close>

definition nat_propagate :: "(nat \<Rightarrow> error + nat) \<Rightarrow> nat \<Rightarrow> string \<Rightarrow> bool \<Rightarrow> error + nat" where
  "nat_propagate module guide method allow_empty =
     (if guide = 0 \<and> \<not> allow_empty then Inl (RuntimeError ''empty guide'')
      else Inr (guide div 2))"

section \<open>Properties\<close>

subsection \<open>Layer verification and the deepest layer\<close>

lemma verify_layers_Inr: "(\<forall>n\<in>set ls. contains e n) \<Longrightarrow> verify_layers e ls = Inr ()"
  by (induction ls) (auto simp: verify_layer_def)

lemma verify_layers_Inl: "\<exists>n\<in>set ls. \<not> contains e n \<Longrightarrow> verify_layers e ls = Inl ValueError"
  by (induction ls) (auto simp: verify_layer_def)

lemma index_less: "x \<in> set xs \<Longrightarrow> index xs x < length xs"
  by (induction xs) auto

lemma index_nth: "x \<in> set xs \<Longrightarrow> xs ! index xs x = x"
  by (induction xs) auto

lemma index_inj: "x \<in> set xs \<Longrightarrow> index xs x = index xs y \<Longrightarrow> x = y"
  by (induction xs) (auto split: if_splits)

lemma sorted_le_last: "sorted (xs::'a::linorder list) \<Longrightarrow> x \<in> set xs \<Longrightarrow> x \<le> last xs"
  by (induction xs) auto

lemma last_sort_key:
  assumes "xs \<noteq> []"
  shows "last (sort_key f xs) \<in> set xs" and "\<forall>x\<in>set xs. f x \<le> f (last (sort_key f xs))"
proof -
  let ?ys = "sort_key f xs"
  have ne: "?ys \<noteq> []" using assms by (metis length_sort list.size(3) length_0_conv)
  have "last ?ys \<in> set ?ys" using ne by (rule last_in_set)
  then show "last ?ys \<in> set xs" by (simp only: set_sort)
  have s: "sorted (map f ?ys)" by simp
  show "\<forall>x\<in>set xs. f x \<le> f (last ?ys)"
  proof
    fix x assume "x \<in> set xs"
    then have "f x \<in> set (map f ?ys)" by simp
    then have "f x \<le> last (map f ?ys)" using s sorted_le_last by blast
    then show "f x \<le> f (last ?ys)" using ne by (simp add: last_map)
  qed
qed

text \<open>
  On a non-empty collection of known layers, the result is a member of the collection
  and every other member comes strictly earlier in the order of the children.
\<close>

lemma extract_deepest_layer_Inr:
  assumes "names \<noteq> []" "\<forall>n\<in>set names. contains e n"
  shows "\<exists>d. extract_deepest_layer e names = Inr d \<and> d \<in> set names \<and>
           (\<forall>n\<in>set names. n \<noteq> d \<longrightarrow> index (children_names e) n < index (children_names e) d)"
proof -
  let ?f = "index (children_names e)"
  let ?d = "last (sort_key ?f (remdups names))"
  have ne: "remdups names \<noteq> []" using assms(1) by simp
  have ne': "sort_key ?f (remdups names) \<noteq> []" using ne by (metis length_sort length_0_conv)
  have eq: "extract_deepest_layer e names = Inr ?d"
    using ne' by (simp add: extract_deepest_layer_def verify_layers_Inr[OF assms(2)] split: list.splits)
  have mem: "?d \<in> set names" using last_sort_key(1)[OF ne, of ?f] by simp
  have le: "\<forall>n\<in>set names. ?f n \<le> ?f ?d" using last_sort_key(2)[OF ne, of ?f] by simp
  have "\<forall>n\<in>set names. n \<noteq> ?d \<longrightarrow> ?f n < ?f ?d"
  proof (intro ballI impI)
    fix n assume n: "n \<in> set names" "n \<noteq> ?d"
    have "n \<in> set (children_names e)" using assms(2) n(1) by (simp add: contains_def)
    then have "?f n \<noteq> ?f ?d" using index_inj n(2) by metis
    with le n(1) show "?f n < ?f ?d" by (simp add: le_neq_implies_less)
  qed
  with eq mem show ?thesis by blast
qed

lemma extract_deepest_layer_Inl:
  "\<exists>n\<in>set names. \<not> contains e n \<Longrightarrow> extract_deepest_layer e names = Inl ValueError"
  by (simp add: extract_deepest_layer_def verify_layers_Inl)

lemma extract_deepest_layer_empty: "extract_deepest_layer e [] = Inl IndexError"
  by (simp add: extract_deepest_layer_def)

lemma extract_deepest_layer_abc:
  "extract_deepest_layer
     \<lparr>modules = [(''a'', fa), (''b'', fb), (''c'', fc)], registered_layers = r, cache = c\<rparr>
     [''a'', ''c''] = Inr ''c''"
  by (simp add: extract_deepest_layer_def verify_layer_def contains_def children_names_def
      named_children_def)

lemma extract_deepest_layer_cba:
  "extract_deepest_layer
     \<lparr>modules = [(''c'', fc), (''b'', fb), (''a'', fa)], registered_layers = r, cache = c\<rparr>
     [''a'', ''c''] = Inr ''a''"
  by (simp add: extract_deepest_layer_def verify_layer_def contains_def children_names_def
      named_children_def)

text \<open>
  Claim C7. \<^verbatim>\<open>extract_deepest_layer\<close> (the spec's \<open>deepest_layer\<close>) fails with the
  error of \<^verbatim>\<open>_verify_layer\<close> if any of the names is not a child of the encoder. On a
  non-empty collection of children names it returns the one name of the collection that
  comes latest in the order of the children: every other name of the collection has a
  strictly smaller position. On the order a, b, c it returns c for the names a and c, on
  the order c, b, a it returns a.
\<close>

theorem extract_deepest_layer_spec:
  "((\<exists>n\<in>set names. \<not> contains e n) \<longrightarrow> extract_deepest_layer e names = Inl ValueError) \<and>
   (names \<noteq> [] \<and> (\<forall>n\<in>set names. contains e n) \<longrightarrow>
      (\<exists>d. extract_deepest_layer e names = Inr d \<and> d \<in> set names \<and>
         (\<forall>n\<in>set names. n \<noteq> d \<longrightarrow>
            index (children_names e) n < index (children_names e) d))) \<and>
   extract_deepest_layer
     \<lparr>modules = [(''a'', fa), (''b'', fb), (''c'', fc)], registered_layers = r, cache = c\<rparr>
     [''a'', ''c''] = Inr ''c'' \<and>
   extract_deepest_layer
     \<lparr>modules = [(''c'', fc), (''b'', fb), (''a'', fa)], registered_layers = r, cache = c\<rparr>
     [''a'', ''c''] = Inr ''a''"
  using extract_deepest_layer_Inl [of names e] extract_deepest_layer_Inr [of names e]
    extract_deepest_layer_abc [of fa fb fc r c] extract_deepest_layer_cba [of fc fb fa r c]
  by blast

theorem extract_deepest_layer_spec_witness:
  "(\<exists>n\<in>set [''a'', ''z'']. \<not> contains abc n) \<and>
   extract_deepest_layer abc [''a'', ''z''] = Inl ValueError \<and>
   contains abc ''c'' \<and> contains abc ''a'' \<and>
   (\<exists>d. extract_deepest_layer abc [''c'', ''a'', ''c''] = Inr d \<and> d \<in> set [''c'', ''a'', ''c''] \<and>
      index (children_names abc) ''a'' \<le> index (children_names abc) d \<and>
      index (children_names abc) ''c'' \<le> index (children_names abc) d)"
proof -
  have h1: "\<exists>n\<in>set [''a'', ''z'']. \<not> contains abc n"
    by (simp add: contains_def children_names_def named_children_def abc_def
        MultiLayerEncoder_def)
  have h2: "contains abc ''c'' \<and> contains abc ''a''"
    by (simp add: contains_def children_names_def named_children_def abc_def
        MultiLayerEncoder_def)
  then have h3: "[''c'', ''a'', ''c''] \<noteq> [] \<and> (\<forall>n\<in>set [''c'', ''a'', ''c'']. contains abc n)"
    by simp
  have c1: "extract_deepest_layer abc [''a'', ''z''] = Inl ValueError"
    using h1 extract_deepest_layer_spec [where names = "[''a'', ''z'']" and e = abc] by blast
  obtain d where d: "extract_deepest_layer abc [''c'', ''a'', ''c''] = Inr d"
      "d \<in> set [''c'', ''a'', ''c'']"
      "\<forall>n\<in>set [''c'', ''a'', ''c'']. n \<noteq> d \<longrightarrow>
         index (children_names abc) n < index (children_names abc) d"
    using h3 extract_deepest_layer_spec [where names = "[''c'', ''a'', ''c'']" and e = abc]
    by blast
  have "index (children_names abc) ''a'' \<le> index (children_names abc) d"
    using d(3) by (cases "''a'' = d") auto
  moreover have "index (children_names abc) ''c'' \<le> index (children_names abc) d"
    using d(3) by (cases "''c'' = d") auto
  ultimately show ?thesis using h1 h2 c1 d(1,2) by blast
qed

subsection \<open>The structure of forward\<close>

lemma set_stored_layers:
  "set [name. (name, key) \<leftarrow> map fst storage, key = k] = {n. (n, k) \<in> fst ` set storage}"
  by (induction storage) (auto split: if_splits)

lemma diff_layers_eq:
  "filter (\<lambda>name. name \<notin> set [name. (name, key) \<leftarrow> map fst storage, key = k]) ls =
   filter (\<lambda>name. (name, k) \<notin> fst ` set storage) ls"
  by (simp only: set_stored_layers mem_Collect_eq)

lemma lookup_layers_cached:
  "\<forall>n\<in>set layers. (n, k) \<in> fst ` set storage \<Longrightarrow>
     lookup_layers storage k layers = Inr (map (\<lambda>n. the (map_of storage (n, k))) layers)"
proof (induction layers)
  case Nil
  then show ?case by simp
next
  case (Cons n layers)
  then have "map_of storage (n, k) \<noteq> None"
    by (simp add: map_of_eq_None_iff)
  with Cons show ?case by (auto split: option.splits)
qed

lemma extract_deepest_layer_InrD:
  assumes "extract_deepest_layer e names = Inr d"
  shows "names \<noteq> []" and "\<forall>n\<in>set names. contains e n" and "d \<in> set names"
    and "\<forall>n\<in>set names. index (children_names e) n \<le> index (children_names e) d"
proof -
  show ne: "names \<noteq> []"
    using assms extract_deepest_layer_empty [of e] by auto
  show all: "\<forall>n\<in>set names. contains e n"
  proof (rule ccontr)
    assume "\<not> (\<forall>n\<in>set names. contains e n)"
    then have "extract_deepest_layer e names = Inl ValueError"
      by (intro extract_deepest_layer_Inl) blast
    with assms show False by simp
  qed
  obtain d' where d': "extract_deepest_layer e names = Inr d'" "d' \<in> set names"
      "\<forall>n\<in>set names. n \<noteq> d' \<longrightarrow> index (children_names e) n < index (children_names e) d'"
    using extract_deepest_layer_Inr [OF ne all] by blast
  have eq: "d' = d" using assms d'(1) by simp
  show "d \<in> set names" using d'(2) eq by simp
  show "\<forall>n\<in>set names. index (children_names e) n \<le> index (children_names e) d"
    using d'(3) eq by (metis order_refl less_imp_le)
qed

lemma run_children_calls_keys:
  "run_children children k x st = (Inr st', calls) \<Longrightarrow>
     calls = map fst children \<and>
     fst ` set st' = fst ` set st \<union> (\<lambda>n. (n, k)) ` fst ` set children"
proof (induction children arbitrary: x st calls)
  case Nil
  then show ?case by simp
next
  case (Cons c children)
  obtain name module where c: "c = (name, module)" by (cases c)
  from Cons.prems obtain out where out: "module x = Inr out"
    by (auto simp: c split: sum.splits prod.splits)
  obtain res calls' where r: "run_children children k out (AList.update (name, k) out st) = (res, calls')"
    by (cases "run_children children k out (AList.update (name, k) out st)")
  with Cons.prems out have res: "res = Inr st'" "calls = name # calls'"
    by (simp_all add: c)
  from Cons.IH [OF r [unfolded res(1)]] show ?case
    by (auto simp: c res(2) dom_update)
qed

lemma in_set_take_index: "n \<in> set xs \<Longrightarrow> index xs n < i \<Longrightarrow> n \<in> set (take i xs)"
proof -
  assume a: "n \<in> set xs" "index xs n < i"
  have "take i xs ! index xs n = n" using a by (simp add: index_nth)
  moreover have "index xs n < length (take i xs)" using a by (simp add: index_less)
  ultimately show ?thesis by (metis nth_mem)
qed

lemma named_children_to_Inr:
  "contains e d \<Longrightarrow>
     named_children_to e d True = Inr (take (Suc (index (children_names e) d)) (modules e))"
  by (simp add: named_children_to_def verify_layer_def named_children_def)

lemma forward_eq_aux:
  assumes diff: "diff = filter (\<lambda>n. (n, k) \<notin> fst ` set (cache e)) (remdups layers)"
    and k: "k = TensorKey x"
  shows "forward e TensorKey x layers store =
     (if diff = [] then (Inr (map (\<lambda>n. the (map_of (cache e) (n, k))) layers), e, [])
      else
        (case extract_deepest_layer e diff of
           Inl err \<Rightarrow> (Inl err, e, [])
         | Inr d \<Rightarrow>
             (case run_children (take (Suc (index (children_names e) d)) (modules e)) k x
                     (cache e) of
                (Inl err, calls) \<Rightarrow> (Inl err, e, calls)
              | (Inr st', calls) \<Rightarrow>
                  (Inr (map (\<lambda>n. the (map_of st' (n, k))) layers),
                   (if store then e\<lparr>cache := dict_update (cache e) st'\<rparr> else e),
                   calls))))"
proof -
  have fw: "forward e TensorKey x layers store =
     (if diff \<noteq> [] then
           (case extract_deepest_layer e diff of
              Inl err \<Rightarrow> (Inl err, e, [])
            | Inr deepest_layer \<Rightarrow>
                (case named_children_to e deepest_layer True of
                   Inl err \<Rightarrow> (Inl err, e, [])
                 | Inr children \<Rightarrow>
                     (case run_children children k x (cache e) of
                        (Inl err, calls) \<Rightarrow> (Inl err, e, calls)
                      | (Inr storage', calls) \<Rightarrow>
                          (lookup_layers storage' k layers,
                           (if store then e\<lparr>cache := dict_update (cache e) storage'\<rparr> else e),
                           calls))))
         else (lookup_layers (cache e) k layers, e, []))"
    unfolding forward_def Let_def diff_layers_eq diff k by (rule refl)
  show ?thesis
  proof (cases "diff = []")
    case True
    then have all: "\<forall>n\<in>set layers. (n, k) \<in> fst ` set (cache e)"
      unfolding diff by (simp add: filter_empty_conv)
    show ?thesis
      using True lookup_layers_cached [OF all] by (simp add: fw)
  next
    case False
    show ?thesis
    proof (cases "extract_deepest_layer e diff")
      case (Inl err)
      with False show ?thesis by (simp add: fw)
    next
      case (Inr d)
      note d = extract_deepest_layer_InrD [OF Inr]
      have cd: "contains e d" using d(2,3) by blast
      let ?children = "take (Suc (index (children_names e) d)) (modules e)"
      obtain res calls where r: "run_children ?children k x (cache e) = (res, calls)"
        by (cases "run_children ?children k x (cache e)")
      show ?thesis
      proof (cases res)
        case (Inl err)
        with False Inr r show ?thesis
          by (simp add: fw named_children_to_Inr [OF cd])
      next
        case st: (Inr st')
        have keys: "fst ` set st' = fst ` set (cache e) \<union> (\<lambda>n. (n, k)) ` fst ` set ?children"
          using run_children_calls_keys [OF r [unfolded st]] by simp
        have all: "\<forall>n\<in>set layers. (n, k) \<in> fst ` set st'"
        proof
          fix n assume n: "n \<in> set layers"
          show "(n, k) \<in> fst ` set st'"
          proof (cases "(n, k) \<in> fst ` set (cache e)")
            case True
            then show ?thesis using keys by blast
          next
            case nc: False
            then have nd: "n \<in> set diff" using n unfolding diff by simp
            then have "contains e n" and "index (children_names e) n \<le> index (children_names e) d"
              using d(2,4) by blast+
            then have "n \<in> set (take (Suc (index (children_names e) d)) (children_names e))"
              by (intro in_set_take_index) (simp_all add: contains_def)
            then have "n \<in> fst ` set ?children"
              by (simp add: children_names_def named_children_def take_map)
            then show ?thesis using keys by blast
          qed
        qed
        show ?thesis
          using False Inr r st lookup_layers_cached [OF all]
          by (simp add: fw named_children_to_Inr [OF cd])
      qed
    qed
  qed
qed

lemma forward_eq:
  "forward e TensorKey x layers store =
     (let k = TensorKey x;
          diff = filter (\<lambda>n. (n, k) \<notin> fst ` set (cache e)) (remdups layers)
      in if diff = [] then (Inr (map (\<lambda>n. the (map_of (cache e) (n, k))) layers), e, [])
         else
           (case extract_deepest_layer e diff of
              Inl err \<Rightarrow> (Inl err, e, [])
            | Inr d \<Rightarrow>
                (case run_children (take (Suc (index (children_names e) d)) (modules e)) k x
                        (cache e) of
                   (Inl err, calls) \<Rightarrow> (Inl err, e, calls)
                 | (Inr st', calls) \<Rightarrow>
                     (Inr (map (\<lambda>n. the (map_of st' (n, k))) layers),
                      (if store then e\<lparr>cache := dict_update (cache e) st'\<rparr> else e),
                      calls))))"
  unfolding Let_def by (rule forward_eq_aux [OF refl refl])

lemma forward_eq_diff:
  assumes "diff = filter (\<lambda>n. (n, TensorKey x) \<notin> fst ` set (cache e)) (remdups layers)"
  shows "forward e TensorKey x layers store =
     (if diff = [] then (Inr (map (\<lambda>n. the (map_of (cache e) (n, TensorKey x))) layers), e, [])
      else
        (case extract_deepest_layer e diff of
           Inl err \<Rightarrow> (Inl err, e, [])
         | Inr d \<Rightarrow>
             (case run_children (take (Suc (index (children_names e) d)) (modules e))
                     (TensorKey x) x (cache e) of
                (Inl err, calls) \<Rightarrow> (Inl err, e, calls)
              | (Inr st', calls) \<Rightarrow>
                  (Inr (map (\<lambda>n. the (map_of st' (n, TensorKey x))) layers),
                   (if store then e\<lparr>cache := dict_update (cache e) st'\<rparr> else e),
                   calls))))"
  by (rule forward_eq_aux) (rule assms, rule refl)

lemma forward_all_cached:
  assumes "\<forall>n\<in>set layers. (n, TensorKey x) \<in> fst ` set (cache e)"
  shows "forward e TensorKey x layers store =
           (Inr (map (\<lambda>n. the (map_of (cache e) (n, TensorKey x))) layers), e, [])"
proof -
  have "filter (\<lambda>n. (n, TensorKey x) \<notin> fst ` set (cache e)) (remdups layers) = []"
    using assms by (simp add: filter_empty_conv)
  then show ?thesis
    using forward_eq_diff [where TensorKey = TensorKey and x = x and e = e and layers = layers and store = store, OF refl] by simp
qed

lemma forward_unknown:
  assumes "n \<in> set layers" "(n, TensorKey x) \<notin> fst ` set (cache e)" "\<not> contains e n"
  shows "forward e TensorKey x layers store = (Inl ValueError, e, [])"
proof -
  define diff where "diff = filter (\<lambda>n. (n, TensorKey x) \<notin> fst ` set (cache e)) (remdups layers)"
  have mem: "n \<in> set diff" using assms(1,2) by (simp add: diff_def)
  then have ne: "diff \<noteq> []" by auto
  have "extract_deepest_layer e diff = Inl ValueError"
    using mem assms(3) by (intro extract_deepest_layer_Inl) blast
  with ne show ?thesis
    using forward_eq_diff [where TensorKey = TensorKey and x = x and e = e and layers = layers and store = store, OF diff_def] by simp
qed

lemma forward_unchanged:
  assumes "\<not> store \<or> fst (forward e TensorKey x layers store) = Inl err"
  shows "fst (snd (forward e TensorKey x layers store)) = e"
proof -
  define diff where "diff = filter (\<lambda>n. (n, TensorKey x) \<notin> fst ` set (cache e)) (remdups layers)"
  show ?thesis
    using assms unfolding forward_eq_diff [where TensorKey = TensorKey and x = x and e = e and layers = layers and store = store, OF diff_def]
    by (auto split: sum.splits prod.splits if_splits)
qed

lemma run_children_error:
  "run_children children k x st = (Inl err, calls) \<Longrightarrow>
     \<exists>name module y. (name, module) \<in> set children \<and> module y = Inl err"
proof (induction children arbitrary: x st calls)
  case Nil
  then show ?case by simp
next
  case (Cons c children)
  obtain name module where c: "c = (name, module)" by (cases c)
  show ?case
  proof (cases "module x")
    case (Inl err')
    with Cons.prems have "err' = err" by (simp add: c)
    with Inl show ?thesis unfolding c by (metis list.set_intros(1))
  next
    case (Inr out)
    obtain res calls' where r: "run_children children k out (AList.update (name, k) out st) = (res, calls')"
      by (cases "run_children children k out (AList.update (name, k) out st)")
    with Cons.prems Inr have "res = Inl err" by (simp add: c)
    from Cons.IH [OF r [unfolded this]] show ?thesis by (metis list.set_intros(2))
  qed
qed

lemma forward_error_of_module:
  assumes "\<forall>n\<in>set layers. (n, TensorKey x) \<in> fst ` set (cache e) \<or> contains e n"
    and "fst (forward e TensorKey x layers store) = Inl err"
  shows "\<exists>name module y. (name, module) \<in> set (modules e) \<and> module y = Inl err"
proof -
  define diff where "diff = filter (\<lambda>n. (n, TensorKey x) \<notin> fst ` set (cache e)) (remdups layers)"
  note fw = forward_eq_diff [where TensorKey = TensorKey and x = x and e = e and layers = layers and store = store, OF diff_def]
  have ne: "diff \<noteq> []" using assms(2) unfolding fw by (auto split: if_splits)
  have "\<forall>n\<in>set diff. contains e n" using assms(1) by (auto simp: diff_def)
  with ne obtain d where d: "extract_deepest_layer e diff = Inr d"
    using extract_deepest_layer_Inr by blast
  let ?children = "take (Suc (index (children_names e) d)) (modules e)"
  obtain res calls where r: "run_children ?children (TensorKey x) x (cache e) = (res, calls)"
    by (cases "run_children ?children (TensorKey x) x (cache e)")
  have "res = Inl err" using assms(2) ne d r unfolding fw by (cases res) auto
  from run_children_error [OF r [unfolded this]] show ?thesis
    by (meson in_set_takeD)
qed

lemma forward_abc:
  assumes "modules e = [(a, fa), (b, fb), (c, fc)]" "distinct [a, b, c]" "cache e = []"
    "fa x = Inr ya" "fb ya = Inr yb" "fc yb = Inr yc"
  shows "forward e TensorKey x [c] store =
     (Inr [yc],
      (if store
       then e\<lparr>cache := [((a, TensorKey x), ya), ((b, TensorKey x), yb), ((c, TensorKey x), yc)]\<rparr>
       else e),
      [a, b, c])"
proof -
  have ne: "c \<noteq> a" "c \<noteq> b" "b \<noteq> a" using assms(2) by auto
  show ?thesis
    using assms ne
    by (simp add: forward_def Let_def extract_deepest_layer_def verify_layer_def contains_def
        children_names_def named_children_def named_children_to_def dict_update_def)
qed

subsection \<open>Trimming\<close>

lemma delete_middle:
  "distinct (map fst (pre @ (name, module) # rest)) \<Longrightarrow>
     AList.delete name (pre @ (name, module) # rest) = pre @ rest"
proof -
  assume d: "distinct (map fst (pre @ (name, module) # rest))"
  have "AList.delete name pre = pre" "AList.delete name rest = rest"
    using d by (auto intro!: AList.delete_id)
  then show ?thesis by (simp add: AList.delete_eq)
qed

lemma del_modules_suffix:
  "modules e = pre @ post \<Longrightarrow> distinct (map fst (modules e)) \<Longrightarrow>
     del_modules post e = (Inr (), e\<lparr>modules := pre\<rparr>)"
proof (induction post arbitrary: e)
  case Nil
  then show ?case by simp
next
  case (Cons c post)
  obtain name module where c: "c = (name, module)" by (cases c)
  have mem: "name \<in> fst ` set (modules e)" using Cons.prems(1) by (force simp: c)
  have del: "AList.delete name (modules e) = pre @ post"
    using Cons.prems delete_middle [of pre name module post] by (simp add: c)
  have "del_modules post (e\<lparr>modules := pre @ post\<rparr>) = (Inr (), e\<lparr>modules := pre @ post\<rparr>\<lparr>modules := pre\<rparr>)"
    using Cons.prems by (intro Cons.IH) (auto simp: c)
  then show ?case using mem del by (simp add: c)
qed

lemma trim_eq:
  assumes "distinct (children_names e)"
    and "extract_deepest_layer e (case layers of None \<Rightarrow> registered_layers e | Some ls \<Rightarrow> ls) = Inr d"
  shows "trim e layers = (Inr (), e\<lparr>modules := take (Suc (index (children_names e) d)) (modules e)\<rparr>)"
proof -
  note dd = extract_deepest_layer_InrD [OF assms(2)]
  have cd: "contains e d" using dd(2,3) by blast
  have nf: "named_children_from e d False = Inr (drop (Suc (index (children_names e) d)) (modules e))"
    using cd by (simp add: named_children_from_def verify_layer_def named_children_def)
  have "del_modules (drop (Suc (index (children_names e) d)) (modules e)) e =
          (Inr (), e\<lparr>modules := take (Suc (index (children_names e) d)) (modules e)\<rparr>)"
    using assms(1) by (intro del_modules_suffix) (simp_all add: children_names_def named_children_def)
  then show ?thesis using assms(2) nf by (simp add: trim_def)
qed

lemma trim_error:
  "extract_deepest_layer e (case layers of None \<Rightarrow> registered_layers e | Some ls \<Rightarrow> ls) = Inl err \<Longrightarrow>
     trim e layers = (Inl err, e)"
  by (simp add: trim_def)

lemma index_take: "index xs n < i \<Longrightarrow> n \<in> set xs \<Longrightarrow> index (take i xs) n = index xs n"
  by (induction xs arbitrary: i) (auto simp: take_Cons split: nat.splits if_splits)

lemma not_in_take_index:
  "distinct xs \<Longrightarrow> n \<in> set xs \<Longrightarrow> i \<le> index xs n \<Longrightarrow> n \<notin> set (take i xs)"
proof
  assume a: "distinct xs" "n \<in> set xs" "i \<le> index xs n" "n \<in> set (take i xs)"
  then obtain j where j: "j < length (take i xs)" "take i xs ! j = n"
    by (metis in_set_conv_nth)
  then have "j < i" "j < length xs" "xs ! j = n" by simp_all
  moreover have "xs ! index xs n = n" "index xs n < length xs" using a(2) by (simp_all add: index_nth index_less)
  ultimately have "j = index xs n" using a(1) by (metis nth_eq_iff_index_eq)
  with \<open>j < i\<close> a(3) show False by simp
qed

lemma abc_stored_eq:
  "abc_stored = abc\<lparr>cache := [((''a'', 0), 1), ((''b'', 0), 2), ((''c'', 0), 12)]\<rparr>"
proof -
  have "forward abc nat_key 0 [''c''] True =
     (Inr [12], abc\<lparr>cache := [((''a'', nat_key 0), 1), ((''b'', nat_key 0), 2), ((''c'', nat_key 0), 12)]\<rparr>,
      [''a'', ''b'', ''c''])"
    using forward_abc [where e = abc and a = "''a''" and b = "''b''" and c = "''c''" and x = 0
        and ya = 1 and yb = 2 and yc = 12 and store = True and TensorKey = nat_key]
    by (simp add: abc_def MultiLayerEncoder_def)
  then show ?thesis by (simp add: abc_stored_def nat_key_def)
qed

lemma abc_trimmed_eq:
  "abc_trimmed = abc_stored\<lparr>modules := [(''a'', \<lambda>x. Inr (x + 1)), (''b'', \<lambda>x. Inr (2 * x))]\<rparr>"
proof -
  have d: "extract_deepest_layer abc_stored [''b''] = Inr ''b''"
    by (simp add: abc_stored_eq abc_def MultiLayerEncoder_def extract_deepest_layer_def
        verify_layer_def contains_def children_names_def named_children_def)
  have "trim abc_stored (Some [''b'']) =
      (Inr (), abc_stored\<lparr>modules := take (Suc (index (children_names abc_stored) ''b'')) (modules abc_stored)\<rparr>)"
    using d by (intro trim_eq) (simp_all add: abc_stored_eq abc_def MultiLayerEncoder_def
        children_names_def named_children_def)
  then show ?thesis
    by (simp add: abc_trimmed_def abc_stored_eq abc_def MultiLayerEncoder_def
        children_names_def named_children_def)
qed

subsection \<open>Claims about forward\<close>

lemmas enc_defs = abc_def abc_fail_def MultiLayerEncoder_def contains_def children_names_def
  named_children_def nat_key_def

text \<open>
  Claim C1. On an encoder with the children a, b, c in this order (their names
  distinct, as the keys of \<^verbatim>\<open>_modules\<close> are) and an empty cache, with the three
  modules returning normally, \<^verbatim>\<open>forward(x, [c])\<close> calls a, then b, then c, each once,
  and returns the output of c. For every encoder, input and list of layers that are all
  cached under the key of the input, \<^verbatim>\<open>forward\<close> returns the cached encodings, calls
  no module and leaves the encoder as it is.
\<close>

theorem forward_runs_in_order_and_reuses_cache:
  "(modules e = [(a, fa), (b, fb), (c, fc)] \<and> distinct [a, b, c] \<and> cache e = [] \<and>
      fa x = Inr ya \<and> fb ya = Inr yb \<and> fc yb = Inr yc \<longrightarrow>
      forward e TensorKey x [c] store =
        (Inr [yc],
         (if store
          then e\<lparr>cache := [((a, TensorKey x), ya), ((b, TensorKey x), yb), ((c, TensorKey x), yc)]\<rparr>
          else e),
         [a, b, c])) \<and>
   ((\<forall>n\<in>set layers. (n, TensorKey x) \<in> fst ` set (cache e)) \<longrightarrow>
      forward e TensorKey x layers store =
        (Inr (map (\<lambda>n. the (map_of (cache e) (n, TensorKey x))) layers), e, []))"
  using forward_abc [of e a fa b fb c fc x ya yb yc TensorKey store]
    forward_all_cached [of layers TensorKey x e store]
  by blast

theorem forward_runs_in_order_and_reuses_cache_witness:
  "forward abc nat_key 0 [''c''] False = (Inr [12], abc, [''a'', ''b'', ''c'']) \<and>
   forward abc_stored nat_key 0 [''c'', ''a''] True = (Inr [12, 1], abc_stored, [])"
proof -
  have 1: "forward abc nat_key 0 [''c''] False = (Inr [12], abc, [''a'', ''b'', ''c''])"
    using forward_runs_in_order_and_reuses_cache [where e = abc and a = "''a''" and b = "''b''"
        and c = "''c''" and fa = "\<lambda>x. Inr (x + 1)" and fb = "\<lambda>x. Inr (2 * x)"
        and fc = "\<lambda>x. Inr (x + 10)" and x = 0 and ya = 1 and yb = 2 and yc = 12
        and store = False and TensorKey = nat_key]
    by (simp add: abc_def MultiLayerEncoder_def)
  have 2: "forward abc_stored nat_key 0 [''c'', ''a''] True = (Inr [12, 1], abc_stored, [])"
    using forward_runs_in_order_and_reuses_cache [where e = abc_stored and x = 0
        and layers = "[''c'', ''a'']" and store = True and TensorKey = nat_key]
    by (simp add: abc_stored_eq nat_key_def)
  from 1 2 show ?thesis by simp
qed

text \<open>
  Claim C5. A call of \<^verbatim>\<open>forward\<close> with \<^verbatim>\<open>store=False\<close> leaves the encoder, and
  with it the cache, unchanged; so does every call that raises, whatever \<^verbatim>\<open>store\<close>
  is, a module raising half-way included. The cache differs after the call only if
  \<^verbatim>\<open>store\<close> is true and the call returned normally.
\<close>

theorem forward_cache_mutation:
  "(\<not> store \<longrightarrow> fst (snd (forward e TensorKey x layers store)) = e) \<and>
   (fst (forward e TensorKey x layers store) = Inl err \<longrightarrow>
      fst (snd (forward e TensorKey x layers store)) = e) \<and>
   (cache (fst (snd (forward e TensorKey x layers store))) \<noteq> cache e \<longrightarrow>
      store \<and> (\<exists>r. fst (forward e TensorKey x layers store) = Inr r))"
proof -
  have 1: "\<not> store \<longrightarrow> fst (snd (forward e TensorKey x layers store)) = e"
    using forward_unchanged [of store e TensorKey x layers] by blast
  have 2: "\<And>err. fst (forward e TensorKey x layers store) = Inl err \<longrightarrow>
      fst (snd (forward e TensorKey x layers store)) = e"
    using forward_unchanged [of store e TensorKey x layers] by blast
  have 3: "cache (fst (snd (forward e TensorKey x layers store))) \<noteq> cache e \<longrightarrow>
      store \<and> (\<exists>r. fst (forward e TensorKey x layers store) = Inr r)"
    using 1 2 by (cases "fst (forward e TensorKey x layers store)"; cases store) auto
  from 1 2 3 show ?thesis by blast
qed

lemma forward_abc_fail:
  "forward abc_fail nat_key 0 [''c''] True =
     (Inl (RuntimeError ''b failed''), abc_fail, [''a'', ''b''])"
  by (simp add: forward_def Let_def extract_deepest_layer_def verify_layer_def
      named_children_to_def abc_fail_def MultiLayerEncoder_def contains_def children_names_def
      named_children_def)

theorem forward_cache_mutation_witness:
  "fst (forward abc_fail nat_key 0 [''c''] True) = Inl (RuntimeError ''b failed'') \<and>
   snd (snd (forward abc_fail nat_key 0 [''c''] True)) = [''a'', ''b''] \<and>
   fst (snd (forward abc_fail nat_key 0 [''c''] True)) = abc_fail \<and>
   fst (snd (forward abc nat_key 0 [''c''] False)) = abc"
  using forward_cache_mutation [where e = abc_fail and TensorKey = nat_key and x = 0
      and layers = "[''c'']" and store = True and err = "RuntimeError ''b failed''"]
    forward_cache_mutation [where e = abc and TensorKey = nat_key and x = 0
      and layers = "[''c'']" and store = False]
  by (simp add: forward_abc_fail)

text \<open>
  Claim C6. A layer that is cached under the key of the input is returned from the
  cache without being verified, whether or not it is a child of the encoder. A requested
  layer that is neither cached under this key nor a child makes \<^verbatim>\<open>forward\<close> fail
  with the error of \<^verbatim>\<open>_verify_layer\<close>; and when every requested layer is cached or
  a child, an error of \<^verbatim>\<open>forward\<close> is an error that a child module raised, not one
  of the verification.
\<close>

theorem forward_cached_not_verified:
  "((n, TensorKey x) \<in> fst ` set (cache e) \<longrightarrow>
      forward e TensorKey x [n] store =
        (Inr [the (map_of (cache e) (n, TensorKey x))], e, [])) \<and>
   ((\<exists>m\<in>set layers. (m, TensorKey x) \<notin> fst ` set (cache e) \<and> \<not> contains e m) \<longrightarrow>
      forward e TensorKey x layers store = (Inl ValueError, e, [])) \<and>
   ((\<forall>m\<in>set layers. (m, TensorKey x) \<in> fst ` set (cache e) \<or> contains e m) \<and>
    fst (forward e TensorKey x layers store) = Inl err \<longrightarrow>
      (\<exists>name module y. (name, module) \<in> set (modules e) \<and> module y = Inl err))"
proof -
  have 1: "(n, TensorKey x) \<in> fst ` set (cache e) \<longrightarrow>
      forward e TensorKey x [n] store =
        (Inr [the (map_of (cache e) (n, TensorKey x))], e, [])"
    using forward_all_cached [of "[n]" TensorKey x e store] by simp
  have 2: "(\<exists>m\<in>set layers. (m, TensorKey x) \<notin> fst ` set (cache e) \<and> \<not> contains e m) \<longrightarrow>
      forward e TensorKey x layers store = (Inl ValueError, e, [])"
    using forward_unknown [of _ layers TensorKey x e store] by blast
  have 3: "(\<forall>m\<in>set layers. (m, TensorKey x) \<in> fst ` set (cache e) \<or> contains e m) \<and>
    fst (forward e TensorKey x layers store) = Inl err \<longrightarrow>
      (\<exists>name module y. (name, module) \<in> set (modules e) \<and> module y = Inl err)"
    using forward_error_of_module [of layers TensorKey x e store err] by blast
  from 1 2 3 show ?thesis by blast
qed

theorem forward_cached_not_verified_witness:
  "\<not> contains abc_trimmed ''c'' \<and>
   forward abc_trimmed nat_key 0 [''c''] False = (Inr [12], abc_trimmed, []) \<and>
   forward abc_trimmed nat_key 7 [''b'', ''c''] False = (Inl ValueError, abc_trimmed, []) \<and>
   (\<exists>name module y. (name, module) \<in> set (modules abc_fail) \<and>
      module y = Inl (RuntimeError ''b failed''))"
proof -
  have nc: "\<not> contains abc_trimmed ''c''"
    by (simp add: abc_trimmed_eq abc_stored_eq enc_defs)
  have 1: "forward abc_trimmed nat_key 0 [''c''] False = (Inr [12], abc_trimmed, [])"
    using forward_cached_not_verified [where e = abc_trimmed and TensorKey = nat_key and x = 0
        and n = "''c''" and store = False]
    by (simp add: abc_trimmed_eq abc_stored_eq nat_key_def)
  have h2: "\<exists>m\<in>set [''b'', ''c'']. (m, nat_key 7) \<notin> fst ` set (cache abc_trimmed) \<and>
      \<not> contains abc_trimmed m"
    using nc by (simp add: abc_trimmed_eq abc_stored_eq nat_key_def)
  have 2: "forward abc_trimmed nat_key 7 [''b'', ''c''] False = (Inl ValueError, abc_trimmed, [])"
    using h2 forward_cached_not_verified [where e = abc_trimmed and TensorKey = nat_key and x = 7
        and layers = "[''b'', ''c'']" and store = False]
    by blast
  have h3: "\<forall>m\<in>set [''c'']. (m, nat_key 0) \<in> fst ` set (cache abc_fail) \<or> contains abc_fail m"
    by (simp add: enc_defs)
  have 3: "\<exists>name module y. (name, module) \<in> set (modules abc_fail) \<and>
      module y = Inl (RuntimeError ''b failed'')"
    using h3 forward_abc_fail
      forward_cached_not_verified [where e = abc_fail and TensorKey = nat_key and x = 0
        and layers = "[''c'']" and store = True and err = "RuntimeError ''b failed''"]
    by simp
  from nc 1 2 3 show ?thesis by blast
qed

text \<open>
  Claim C4, as amended. For a name that is not a child of the encoder and has no cache
  entry under the key of the input, \<^verbatim>\<open>forward(x, [z])\<close> fails with the error of
  \<^verbatim>\<open>_verify_layer\<close>, calls no module and leaves the encoder, and with it the cache,
  unchanged.
\<close>

theorem forward_unknown_uncached:
  "\<not> contains e z \<and> (z, TensorKey x) \<notin> fst ` set (cache e) \<longrightarrow>
     forward e TensorKey x [z] store = (Inl ValueError, e, [])"
  using forward_unknown [of z "[z]" TensorKey x e store] by simp

theorem forward_unknown_uncached_witness:
  "\<not> contains abc ''z'' \<and> forward abc nat_key 0 [''z''] True = (Inl ValueError, abc, [])"
proof -
  have h: "\<not> contains abc ''z'' \<and> (''z'', nat_key 0) \<notin> fst ` set (cache abc)"
    by (simp add: enc_defs)
  then show ?thesis
    using forward_unknown_uncached [where e = abc and z = "''z''" and TensorKey = nat_key
        and x = 0 and store = True]
    by blast
qed

text \<open>
  Claim C4, as stated, fails: after \<^verbatim>\<open>forward(0, ["c"], store=True)\<close> and
  \<^verbatim>\<open>trim(["b"])\<close> the name c is no child of the encoder, and \<^verbatim>\<open>forward(0, ["c"])\<close>
  returns the cached encoding.
\<close>

theorem forward_unknown_cached_succeeds:
  "\<not> contains abc_trimmed ''c'' \<and>
   fst (forward abc_trimmed nat_key 0 [''c''] True) = Inr [12]"
proof -
  have "forward abc_trimmed nat_key 0 [''c''] True = (Inr [12], abc_trimmed, [])"
    using forward_all_cached [where e = abc_trimmed and TensorKey = nat_key and x = 0
        and layers = "[''c'']" and store = True]
    by (simp add: abc_trimmed_eq abc_stored_eq nat_key_def)
  then show ?thesis by (simp add: abc_trimmed_eq abc_stored_eq enc_defs)
qed

subsection \<open>Claims about trim\<close>

lemma trim_deleted_unknown:
  assumes "distinct (children_names e)" "contains e z"
    and "index (children_names e) d < index (children_names e) z"
    and "modules e' = take (Suc (index (children_names e) d)) (modules e)"
  shows "\<not> contains e' z"
proof -
  have "z \<notin> set (take (Suc (index (children_names e) d)) (children_names e))"
    using assms(1,2,3) by (intro not_in_take_index) (simp_all add: contains_def)
  then show ?thesis
    using assms(4) by (simp add: contains_def children_names_def named_children_def take_map)
qed

lemma trim_abc_b:
  "trim \<lparr>modules = [(''a'', fa), (''b'', fb), (''c'', fc)], registered_layers = r, cache = c\<rparr>
     (Some [''b'']) =
   (Inr (), \<lparr>modules = [(''a'', fa), (''b'', fb)], registered_layers = r, cache = c\<rparr>)"
  by (simp add: trim_def extract_deepest_layer_def verify_layer_def contains_def
      children_names_def named_children_def named_children_from_def AList.delete_eq)

lemma trim_abc_ba:
  "trim \<lparr>modules = [(''a'', fa), (''b'', fb), (''c'', fc)], registered_layers = r, cache = c\<rparr>
     (Some [''b'', ''a'']) =
   (Inr (), \<lparr>modules = [(''a'', fa), (''b'', fb)], registered_layers = r, cache = c\<rparr>)"
  by (simp add: trim_def extract_deepest_layer_def verify_layer_def contains_def
      children_names_def named_children_def named_children_from_def AList.delete_eq)

lemma trim_abc_ac:
  "trim \<lparr>modules = [(''a'', fa), (''b'', fb), (''c'', fc)], registered_layers = r, cache = c\<rparr>
     (Some [''a'', ''c'']) =
   (Inr (), \<lparr>modules = [(''a'', fa), (''b'', fb), (''c'', fc)], registered_layers = r,
      cache = c\<rparr>)"
  by (simp add: trim_def extract_deepest_layer_def verify_layer_def contains_def
      children_names_def named_children_def named_children_from_def AList.delete_eq)

text \<open>
  Claim C3, as amended. Let the layers be the given ones, or the registered layers
  when none are given, non-empty and all children of the encoder (whose names are
  distinct). Let d be the deepest of the layers: the one member of the layers such that
  every other member comes strictly earlier in the order of the children. Then
  \<^verbatim>\<open>trim\<close> keeps the children up to and including d and deletes exactly those after
  it. In every later state with these children, \<^verbatim>\<open>forward\<close> for a deleted layer that
  has no cache entry under the key of the input fails with the error of
  \<^verbatim>\<open>_verify_layer\<close>. On the children a, b, c, \<^verbatim>\<open>trim(["b"])\<close> and
  \<^verbatim>\<open>trim(["b", "a"])\<close> remove c and keep a and b, and \<^verbatim>\<open>trim(["a", "c"])\<close>
  removes nothing.
\<close>

theorem trim_deletes_after_deepest:
  "(distinct (children_names (e :: ('t, 'k) encoder)) \<and>
    ls = (case layers of None \<Rightarrow> registered_layers e | Some given \<Rightarrow> given) \<and>
    ls \<noteq> [] \<and> (\<forall>n\<in>set ls. contains e n) \<longrightarrow>
      (\<exists>d. extract_deepest_layer e ls = Inr d \<and>
         d \<in> set ls \<and>
         (\<forall>n\<in>set ls. n \<noteq> d \<longrightarrow>
            index (children_names e) n < index (children_names e) d) \<and>
         trim e layers =
           (Inr (), e\<lparr>modules := take (Suc (index (children_names e) d)) (modules e)\<rparr>) \<and>
         (\<forall>z (e' :: ('t, 'k) encoder) TensorKey x store.
            contains e z \<and> index (children_names e) d < index (children_names e) z \<and>
            modules e' = modules (snd (trim e layers)) \<and>
            (z, TensorKey x) \<notin> fst ` set (cache e') \<longrightarrow>
              \<not> contains e' z \<and>
              forward e' TensorKey x [z] store = (Inl ValueError, e', [])))) \<and>
   trim \<lparr>modules = [(''a'', fa), (''b'', fb), (''c'', fc)], registered_layers = r, cache = c\<rparr>
     (Some [''b'']) =
   (Inr (), \<lparr>modules = [(''a'', fa), (''b'', fb)], registered_layers = r, cache = c\<rparr>) \<and>
   trim \<lparr>modules = [(''a'', fa), (''b'', fb), (''c'', fc)], registered_layers = r, cache = c\<rparr>
     (Some [''b'', ''a'']) =
   (Inr (), \<lparr>modules = [(''a'', fa), (''b'', fb)], registered_layers = r, cache = c\<rparr>) \<and>
   trim \<lparr>modules = [(''a'', fa), (''b'', fb), (''c'', fc)], registered_layers = r, cache = c\<rparr>
     (Some [''a'', ''c'']) =
   (Inr (), \<lparr>modules = [(''a'', fa), (''b'', fb), (''c'', fc)], registered_layers = r,
      cache = c\<rparr>)"
proof -
  have "\<exists>d. extract_deepest_layer e ls = Inr d \<and>
         d \<in> set ls \<and>
         (\<forall>n\<in>set ls. n \<noteq> d \<longrightarrow>
            index (children_names e) n < index (children_names e) d) \<and>
         trim e layers =
           (Inr (), e\<lparr>modules := take (Suc (index (children_names e) d)) (modules e)\<rparr>) \<and>
         (\<forall>z (e' :: ('t, 'k) encoder) TensorKey x store.
            contains e z \<and> index (children_names e) d < index (children_names e) z \<and>
            modules e' = modules (snd (trim e layers)) \<and>
            (z, TensorKey x) \<notin> fst ` set (cache e') \<longrightarrow>
              \<not> contains e' z \<and>
              forward e' TensorKey x [z] store = (Inl ValueError, e', []))"
    if h: "distinct (children_names e)"
      "ls = (case layers of None \<Rightarrow> registered_layers e | Some given \<Rightarrow> given)"
      "ls \<noteq> []" "\<forall>n\<in>set ls. contains e n"
  proof -
    obtain d where d: "extract_deepest_layer e ls = Inr d"
      and dmem: "d \<in> set ls"
      and dlate: "\<forall>n\<in>set ls. n \<noteq> d \<longrightarrow>
            index (children_names e) n < index (children_names e) d"
      using extract_deepest_layer_Inr [OF h(3,4)] by blast
    have t: "trim e layers =
        (Inr (), e\<lparr>modules := take (Suc (index (children_names e) d)) (modules e)\<rparr>)"
      using h(1) d unfolding h(2) by (rule trim_eq)
    have all: "\<forall>z (e' :: ('t, 'k) encoder) TensorKey x store.
            contains e z \<and> index (children_names e) d < index (children_names e) z \<and>
            modules e' = modules (snd (trim e layers)) \<and>
            (z, TensorKey x) \<notin> fst ` set (cache e') \<longrightarrow>
              \<not> contains e' z \<and>
              forward e' TensorKey x [z] store = (Inl ValueError, e', [])"
    proof (intro allI impI)
      fix z and e' :: "('t, 'k) encoder" and TensorKey :: "'t \<Rightarrow> 'k" and x store
      assume z: "contains e z \<and> index (children_names e) d < index (children_names e) z \<and>
            modules e' = modules (snd (trim e layers)) \<and>
            (z, TensorKey x) \<notin> fst ` set (cache e')"
      have m: "modules e' = take (Suc (index (children_names e) d)) (modules e)"
        using z t by simp
      have nc: "\<not> contains e' z"
        using h(1) z m by (intro trim_deleted_unknown [of e z d e']) simp_all
      then show "\<not> contains e' z \<and> forward e' TensorKey x [z] store = (Inl ValueError, e', [])"
        using z forward_unknown [of z "[z]" TensorKey x e' store] by simp
    qed
    show ?thesis using d dmem dlate t all by (intro exI [of _ d] conjI)
  qed
  then show ?thesis
    using trim_abc_b [of fa fb fc r c] trim_abc_ba [of fa fb fc r c]
      trim_abc_ac [of fa fb fc r c]
    by blast
qed


theorem trim_deletes_after_deepest_witness:
  "trim abc_stored (Some [''a'', ''b'']) = (Inr (), abc_trimmed) \<and>
   children_names abc_trimmed = [''a'', ''b''] \<and>
   contains abc_stored ''c'' \<and> \<not> contains abc_trimmed ''c'' \<and>
   forward abc_trimmed nat_key 7 [''c''] True = (Inl ValueError, abc_trimmed, []) \<and>
   trim (abc\<lparr>registered_layers := [''b'', ''a'']\<rparr>) None =
     (Inr (), abc\<lparr>registered_layers := [''b'', ''a''],
        modules := [(''a'', \<lambda>x. Inr (x + 1)), (''b'', \<lambda>x. Inr (2 * x))]\<rparr>)"
proof -
  have h: "distinct (children_names abc_stored) \<and>
      [''a'', ''b''] =
        (case Some [''a'', ''b''] of None \<Rightarrow> registered_layers abc_stored | Some given \<Rightarrow> given) \<and>
      [''a'', ''b''] \<noteq> [] \<and> (\<forall>n\<in>set [''a'', ''b'']. contains abc_stored n)"
    by (simp add: abc_stored_eq enc_defs)
  obtain d where dmem: "d \<in> set [''a'', ''b'']"
    and dlate: "\<forall>n\<in>set [''a'', ''b'']. n \<noteq> d \<longrightarrow>
        index (children_names abc_stored) n < index (children_names abc_stored) d"
    and t: "trim abc_stored (Some [''a'', ''b'']) =
        (Inr (), abc_stored\<lparr>modules :=
           take (Suc (index (children_names abc_stored) d)) (modules abc_stored)\<rparr>)"
    and f: "\<forall>z (e' :: (nat, nat) encoder) TensorKey x store.
        contains abc_stored z \<and>
        index (children_names abc_stored) d < index (children_names abc_stored) z \<and>
        modules e' = modules (snd (trim abc_stored (Some [''a'', ''b'']))) \<and>
        (z, TensorKey x) \<notin> fst ` set (cache e') \<longrightarrow>
          \<not> contains e' z \<and> forward e' TensorKey x [z] store = (Inl ValueError, e', [])"
    using h trim_deletes_after_deepest [where e = abc_stored and layers = "Some [''a'', ''b'']"
        and ls = "[''a'', ''b'']"]
    by blast
  have db: "d = ''b''"
  proof (rule ccontr)
    assume "d \<noteq> ''b''"
    then have "d = ''a''" using dmem by simp
    with dlate show False by (simp add: abc_stored_eq enc_defs)
  qed
  have 1: "trim abc_stored (Some [''a'', ''b'']) = (Inr (), abc_trimmed)"
    using t by (simp add: db abc_trimmed_eq abc_stored_eq enc_defs)
  have n: "children_names abc_trimmed = [''a'', ''b'']"
    by (simp add: abc_trimmed_eq abc_stored_eq enc_defs)
  have c: "contains abc_stored ''c''"
    by (simp add: abc_stored_eq enc_defs)
  have pre: "contains abc_stored ''c'' \<and>
        index (children_names abc_stored) d < index (children_names abc_stored) ''c'' \<and>
        modules abc_trimmed = modules (snd (trim abc_stored (Some [''a'', ''b'']))) \<and>
        (''c'', nat_key 7) \<notin> fst ` set (cache abc_trimmed)"
  proof -
    have "modules abc_trimmed = modules (snd (trim abc_stored (Some [''a'', ''b''])))"
      by (simp only: 1 snd_conv)
    then show ?thesis
      using c by (simp add: db abc_trimmed_eq abc_stored_eq enc_defs)
  qed
  have 2: "\<not> contains abc_trimmed ''c'' \<and>
      forward abc_trimmed nat_key 7 [''c''] True = (Inl ValueError, abc_trimmed, [])"
    using f pre by blast
  let ?r = "abc\<lparr>registered_layers := [''b'', ''a'']\<rparr>"
  have h': "distinct (children_names ?r) \<and>
      [''b'', ''a''] = (case None of None \<Rightarrow> registered_layers ?r | Some given \<Rightarrow> given) \<and>
      [''b'', ''a''] \<noteq> [] \<and> (\<forall>n\<in>set [''b'', ''a'']. contains ?r n)"
    by (simp add: enc_defs)
  obtain d' where dmem': "d' \<in> set [''b'', ''a'']"
    and dlate': "\<forall>n\<in>set [''b'', ''a'']. n \<noteq> d' \<longrightarrow>
        index (children_names ?r) n < index (children_names ?r) d'"
    and t': "trim ?r None =
        (Inr (), ?r\<lparr>modules := take (Suc (index (children_names ?r) d')) (modules ?r)\<rparr>)"
    using h' trim_deletes_after_deepest [where e = ?r and layers = None and ls = "[''b'', ''a'']"]
    by blast
  have db': "d' = ''b''"
  proof (rule ccontr)
    assume "d' \<noteq> ''b''"
    then have "d' = ''a''" using dmem' by simp
    with dlate' show False by (simp add: enc_defs)
  qed
  have 3: "trim ?r None =
     (Inr (), abc\<lparr>registered_layers := [''b'', ''a''],
        modules := [(''a'', \<lambda>x. Inr (x + 1)), (''b'', \<lambda>x. Inr (2 * x))]\<rparr>)"
    using t' by (simp add: db' enc_defs)
  from 1 n c 2 3 show ?thesis by blast
qed

text \<open>
  Claim C3, as stated, fails: after \<^verbatim>\<open>forward(0, ["c"], store=True)\<close>,
  \<^verbatim>\<open>trim(["b"])\<close> deletes the child c, and \<^verbatim>\<open>forward(0, ["c"])\<close> still returns
  the cached encoding instead of failing.
\<close>

theorem trim_cached_layer_still_served:
  "fst (trim abc_stored (Some [''b''])) = Inr () \<and>
   contains abc_stored ''c'' \<and> \<not> contains abc_trimmed ''c'' \<and>
   fst (forward abc_trimmed nat_key 0 [''c''] False) = Inr [12]"
proof -
  have "fst (trim abc_stored (Some [''b''])) = Inr ()"
    by (simp add: abc_stored_eq abc_def MultiLayerEncoder_def trim_abc_b)
  moreover have "forward abc_trimmed nat_key 0 [''c''] False = (Inr [12], abc_trimmed, [])"
    using forward_all_cached [where e = abc_trimmed and TensorKey = nat_key and x = 0
        and layers = "[''c'']" and store = False]
    by (simp add: abc_trimmed_eq abc_stored_eq nat_key_def)
  ultimately show ?thesis by (simp add: abc_trimmed_eq abc_stored_eq enc_defs)
qed

subsection \<open>Guide propagation\<close>

lemma index_Cons_other: "n \<noteq> y \<Longrightarrow> index (y # ys) n = Suc (index ys n)"
  by simp

lemma propagate_children_error:
  "propagate_through propagate children guide method allow_empty = Inl err \<Longrightarrow>
     propagate_children propagate children guide method allow_empty guides = Inl err"
proof (induction children arbitrary: guide guides)
  case Nil
  then show ?case by simp
next
  case (Cons c children)
  obtain name module where c: "c = (name, module)" by (cases c)
  show ?case
  proof (cases "propagate module guide method allow_empty")
    case (Inl err')
    with Cons.prems have "err' = err" by (simp add: c)
    with Inl show ?thesis by (cases err) (simp_all add: c)
  next
    case (Inr g)
    with Cons.prems have "propagate_through propagate children g method allow_empty = Inl err"
      by (simp add: c)
    from Cons.IH [OF this] Inr show ?thesis by (simp add: c)
  qed
qed

lemma propagate_children_guides:
  assumes "propagate_through propagate children guide method allow_empty = Inr gl"
    and "distinct (map fst children)"
  shows "\<exists>guides'. propagate_children propagate children guide method allow_empty guides = Inr guides' \<and>
           (\<forall>n\<in>fst ` set children. \<exists>g.
              propagate_through propagate (take (Suc (index (map fst children) n)) children)
                guide method allow_empty = Inr g \<and> map_of guides' n = Some g) \<and>
           (\<forall>n. n \<notin> fst ` set children \<longrightarrow> map_of guides' n = map_of guides n)"
  using assms
proof (induction children arbitrary: guide guides)
  case Nil
  then show ?case by simp
next
  case (Cons c children)
  obtain name module where c: "c = (name, module)" by (cases c)
  from Cons.prems(1) obtain g1 where g1: "propagate module guide method allow_empty = Inr g1"
    and rest: "propagate_through propagate children g1 method allow_empty = Inr gl"
    by (auto simp: c split: sum.splits)
  have dist: "distinct (map fst children)" and fresh: "name \<notin> fst ` set children"
    using Cons.prems(2) by (simp_all add: c)
  obtain guides' where
    r: "propagate_children propagate children g1 method allow_empty (AList.update name g1 guides) = Inr guides'"
    and inside: "\<forall>n\<in>fst ` set children. \<exists>g.
              propagate_through propagate (take (Suc (index (map fst children) n)) children)
                g1 method allow_empty = Inr g \<and> map_of guides' n = Some g"
    and outside: "\<forall>n. n \<notin> fst ` set children \<longrightarrow> map_of guides' n = map_of (AList.update name g1 guides) n"
    using Cons.IH [OF rest dist, of "AList.update name g1 guides"] by blast
  have run: "propagate_children propagate (c # children) guide method allow_empty guides = Inr guides'"
    using g1 r by (simp add: c)
  have a: "\<exists>g. propagate_through propagate (take (Suc (index (map fst (c # children)) n)) (c # children))
                guide method allow_empty = Inr g \<and> map_of guides' n = Some g"
    if n: "n \<in> fst ` set (c # children)" for n
  proof (cases "n = name")
    case True
    have "map_of guides' name = Some g1"
      using outside fresh by (simp add: update_conv')
    then show ?thesis using True g1 by (simp add: c)
  next
    case False
    then have "n \<in> fst ` set children" using n by (auto simp: c)
    with inside obtain g where
      "propagate_through propagate (take (Suc (index (map fst children) n)) children)
                g1 method allow_empty = Inr g" "map_of guides' n = Some g"
      by blast
    then show ?thesis using False g1 by (simp add: c)
  qed
  have b: "map_of guides' n = map_of guides n" if "n \<notin> fst ` set (c # children)" for n
    using that outside by (simp add: c update_conv')
  from run a b show ?case by blast
qed

lemma lookup_guides_Inr:
  "\<forall>n\<in>set layers. map_of guides n \<noteq> None \<Longrightarrow>
     lookup_guides guides layers = Inr (map (\<lambda>n. the (map_of guides n)) layers)"
  by (induction layers) (auto split: option.splits)


lemma take_Suc_index_prefix:
  assumes "distinct (map fst ms)" "n \<in> fst ` set ms"
    and "index (map fst ms) n \<le> j"
  shows "n \<in> fst ` set (take (Suc j) ms)"
    and "take (Suc (index (map fst (take (Suc j) ms)) n)) (take (Suc j) ms) =
         take (Suc (index (map fst ms) n)) ms"
proof -
  have lt: "index (map fst ms) n < Suc j" using assms(3) by simp
  have mem: "n \<in> set (map fst ms)" using assms(2) by simp
  have "n \<in> set (take (Suc j) (map fst ms))"
    using mem lt by (rule in_set_take_index)
  then show "n \<in> fst ` set (take (Suc j) ms)" by (simp add: take_map)
  have "index (take (Suc j) (map fst ms)) n = index (map fst ms) n"
    using lt mem by (rule index_take)
  then have "index (map fst (take (Suc j) ms)) n = index (map fst ms) n"
    by (simp add: take_map)
  then show "take (Suc (index (map fst (take (Suc j) ms)) n)) (take (Suc j) ms) =
         take (Suc (index (map fst ms) n)) ms"
    using assms(3) by (simp add: min_def)
qed

lemma propagate_guide_result:
  assumes dist: "distinct (children_names e)" and ne: "layers \<noteq> []"
    and known: "\<forall>n\<in>set layers. contains e n"
  shows "\<exists>d. extract_deepest_layer e layers = Inr d \<and>
     d \<in> set layers \<and>
     (\<forall>n\<in>set layers. n \<noteq> d \<longrightarrow>
        index (children_names e) n < index (children_names e) d) \<and>
     (\<forall>err. guide_at e propagate guide d method allow_empty = Inl err \<longrightarrow>
        propagate_guide e propagate guide layers method allow_empty = Inl err) \<and>
     (\<forall>gd. guide_at e propagate guide d method allow_empty = Inr gd \<longrightarrow>
        (\<exists>gs. propagate_guide e propagate guide layers method allow_empty = Inr gs \<and>
           length gs = length layers \<and>
           (\<forall>i<length layers.
              guide_at e propagate guide (layers ! i) method allow_empty = Inr (gs ! i))))"
proof -
  obtain d where d: "extract_deepest_layer e layers = Inr d"
    and dmem: "d \<in> set layers"
    and dlate: "\<forall>n\<in>set layers. n \<noteq> d \<longrightarrow>
        index (children_names e) n < index (children_names e) d"
    using extract_deepest_layer_Inr [OF ne known] by blast
  note dd = extract_deepest_layer_InrD [OF d]
  have cd: "contains e d" using dd(2,3) by blast
  let ?j = "index (children_names e) d"
  let ?children = "take (Suc ?j) (modules e)"
  have to: "named_children_to e d True = Inr ?children"
    using cd by (rule named_children_to_Inr)
  have names: "children_names e = map fst (modules e)"
    by (simp add: children_names_def named_children_def)
  have dist': "distinct (map fst ?children)"
  proof -
    have "distinct (take (Suc ?j) (map fst (modules e)))"
      using dist unfolding names by (rule distinct_take)
    then show ?thesis by (simp only: take_map names)
  qed
  have err: "propagate_guide e propagate guide layers method allow_empty = Inl err"
    if "guide_at e propagate guide d method allow_empty = Inl err" for err
    using that d to propagate_children_error [of propagate ?children guide "method" allow_empty err "[]"]
    by (simp add: propagate_guide_def guide_at_def)
  have ok: "\<exists>gs. propagate_guide e propagate guide layers method allow_empty = Inr gs \<and>
           length gs = length layers \<and>
           (\<forall>i<length layers.
              guide_at e propagate guide (layers ! i) method allow_empty = Inr (gs ! i))"
    if gd: "guide_at e propagate guide d method allow_empty = Inr gd" for gd
  proof -
    have through: "propagate_through propagate ?children guide method allow_empty = Inr gd"
      using gd by (simp add: guide_at_def)
    obtain guides' where
      r: "propagate_children propagate ?children guide method allow_empty [] = Inr guides'"
      and inside: "\<forall>n\<in>fst ` set ?children. \<exists>g.
              propagate_through propagate (take (Suc (index (map fst ?children) n)) ?children)
                guide method allow_empty = Inr g \<and> map_of guides' n = Some g"
      using propagate_children_guides [OF through dist', of "[]"] by blast
    have each: "guide_at e propagate guide n method allow_empty = Inr (the (map_of guides' n))"
      if n: "n \<in> set layers" for n
    proof -
      have mem: "n \<in> fst ` set (modules e)"
        using known n by (simp add: contains_def names)
      have le: "index (map fst (modules e)) n \<le> ?j"
        using dd(4) n by (simp add: names)
      have d': "distinct (map fst (modules e))" using dist by (simp add: names)
      note p = take_Suc_index_prefix [OF d' mem le]
      from inside p(1) obtain g where
        "propagate_through propagate (take (Suc (index (map fst ?children) n)) ?children)
                guide method allow_empty = Inr g" "map_of guides' n = Some g"
        by blast
      then show ?thesis using p(2) by (simp add: guide_at_def names)
    qed
    have all: "\<forall>n\<in>set layers. map_of guides' n \<noteq> None"
    proof
      fix n assume n: "n \<in> set layers"
      have mem: "n \<in> fst ` set (modules e)"
        using known n by (simp add: contains_def names)
      have le: "index (map fst (modules e)) n \<le> ?j"
        using dd(4) n by (simp add: names)
      have d': "distinct (map fst (modules e))" using dist by (simp add: names)
      from inside take_Suc_index_prefix(1) [OF d' mem le]
      show "map_of guides' n \<noteq> None" by force
    qed
    have res: "propagate_guide e propagate guide layers method allow_empty =
        Inr (map (\<lambda>n. the (map_of guides' n)) layers)"
      using d to r lookup_guides_Inr [OF all] by (simp add: propagate_guide_def)
    show ?thesis
      using res each by (intro exI [of _ "map (\<lambda>n. the (map_of guides' n)) layers"]) simp
  qed
  from d dmem dlate err ok show ?thesis by blast
qed


text \<open>
  Claim C8. For a non-empty sequence of layers that are children of the encoder (whose
  names are distinct), let d be the deepest of them: the one requested layer such that
  every other requested layer comes strictly earlier in the order of the children. The
  propagator is applied through the children from the first through d and no further.
  If the guide propagator fails
  somewhere on the way through the children from the first through d, then
  \<^verbatim>\<open>propagate_guide\<close> fails with that very error. Otherwise it returns one guide per
  requested layer, in the order of the request, and each is the guide obtained by
  applying the propagator successively through the children from the first through that
  layer.
\<close>

theorem propagate_guide_spec:
  "distinct (children_names e) \<and> layers \<noteq> [] \<and> (\<forall>n\<in>set layers. contains e n) \<longrightarrow>
     (\<exists>d. extract_deepest_layer e layers = Inr d \<and>
        d \<in> set layers \<and>
        (\<forall>n\<in>set layers. n \<noteq> d \<longrightarrow>
           index (children_names e) n < index (children_names e) d) \<and>
        (\<forall>err. guide_at e propagate guide d method allow_empty = Inl err \<longrightarrow>
           propagate_guide e propagate guide layers method allow_empty = Inl err) \<and>
        (\<forall>gd. guide_at e propagate guide d method allow_empty = Inr gd \<longrightarrow>
           (\<exists>gs. propagate_guide e propagate guide layers method allow_empty = Inr gs \<and>
              length gs = length layers \<and>
              (\<forall>i<length layers.
                 guide_at e propagate guide (layers ! i) method allow_empty = Inr (gs ! i)))))"
  using propagate_guide_result [of e layers propagate guide "method" allow_empty] by blast

lemma guide_at_abc:
  "guide_at abc nat_propagate 5 ''c'' ''simple'' False = Inr 0"
  "guide_at abc nat_propagate 5 ''a'' ''simple'' False = Inr 2"
  "guide_at abc nat_propagate 2 ''c'' ''simple'' False = Inl (RuntimeError ''empty guide'')"
  "guide_at abc nat_propagate 2 ''b'' ''simple'' False = Inr 0"
  "guide_at abc nat_propagate 2 ''a'' ''simple'' False = Inr 1"
  by (simp_all add: guide_at_def nat_propagate_def enc_defs)

theorem propagate_guide_spec_witness:
  "propagate_guide abc nat_propagate 5 [''c'', ''a''] ''simple'' False = Inr [0, 2] \<and>
   guide_at abc nat_propagate 5 ''c'' ''simple'' False = Inr 0 \<and>
   guide_at abc nat_propagate 5 ''a'' ''simple'' False = Inr 2 \<and>
   propagate_guide abc nat_propagate 2 [''c''] ''simple'' False =
     Inl (RuntimeError ''empty guide'') \<and>
   propagate_guide abc nat_propagate 2 [''b'', ''a''] ''simple'' False = Inr [0, 1]"
proof -
  have h1: "distinct (children_names abc) \<and> [''c'', ''a''] \<noteq> [] \<and>
      (\<forall>n\<in>set [''c'', ''a'']. contains abc n)"
    by (simp add: enc_defs)
  obtain d where dmem: "d \<in> set [''c'', ''a'']"
    and dlate: "\<forall>n\<in>set [''c'', ''a'']. n \<noteq> d \<longrightarrow>
        index (children_names abc) n < index (children_names abc) d"
    and ok: "\<forall>gd. guide_at abc nat_propagate 5 d ''simple'' False = Inr gd \<longrightarrow>
        (\<exists>gs. propagate_guide abc nat_propagate 5 [''c'', ''a''] ''simple'' False = Inr gs \<and>
           length gs = length [''c'', ''a''] \<and>
           (\<forall>i<length [''c'', ''a''].
              guide_at abc nat_propagate 5 ([''c'', ''a''] ! i) ''simple'' False = Inr (gs ! i)))"
    using h1 propagate_guide_spec [of abc "[''c'', ''a'']" nat_propagate 5 "''simple''" False]
    by blast
  have dc: "d = ''c''"
  proof (rule ccontr)
    assume "d \<noteq> ''c''"
    then have "d = ''a''" using dmem by simp
    with dlate show False by (simp add: enc_defs)
  qed
  obtain gs where gs: "propagate_guide abc nat_propagate 5 [''c'', ''a''] ''simple'' False = Inr gs"
    "length gs = length [''c'', ''a'']"
    "\<forall>i<length [''c'', ''a''].
       guide_at abc nat_propagate 5 ([''c'', ''a''] ! i) ''simple'' False = Inr (gs ! i)"
    using ok guide_at_abc(1) unfolding dc by blast
  obtain g0 g1 where l: "gs = [g0, g1]"
    using gs(2) by (auto simp: length_Suc_conv)
  have "g0 = 0" using gs(3) [rule_format, of 0] guide_at_abc(1) by (simp add: l)
  moreover have "g1 = 2" using gs(3) [rule_format, of 1] guide_at_abc(2) by (simp add: l)
  ultimately have 1: "propagate_guide abc nat_propagate 5 [''c'', ''a''] ''simple'' False = Inr [0, 2]"
    using gs(1) l by simp
  have h2: "distinct (children_names abc) \<and> [''c''] \<noteq> [] \<and> (\<forall>n\<in>set [''c'']. contains abc n)"
    by (simp add: enc_defs)
  obtain d2 where dmem2: "d2 \<in> set [''c'']"
    and err2: "\<forall>err. guide_at abc nat_propagate 2 d2 ''simple'' False = Inl err \<longrightarrow>
        propagate_guide abc nat_propagate 2 [''c''] ''simple'' False = Inl err"
    using h2 propagate_guide_spec [of abc "[''c'']" nat_propagate 2 "''simple''" False]
    by blast
  have 2: "propagate_guide abc nat_propagate 2 [''c''] ''simple'' False =
     Inl (RuntimeError ''empty guide'')"
    using dmem2 err2 guide_at_abc(3) by simp
  have h3: "distinct (children_names abc) \<and> [''b'', ''a''] \<noteq> [] \<and>
      (\<forall>n\<in>set [''b'', ''a'']. contains abc n)"
    by (simp add: enc_defs)
  obtain d3 where dmem3: "d3 \<in> set [''b'', ''a'']"
    and dlate3: "\<forall>n\<in>set [''b'', ''a'']. n \<noteq> d3 \<longrightarrow>
        index (children_names abc) n < index (children_names abc) d3"
    and ok3: "\<forall>gd. guide_at abc nat_propagate 2 d3 ''simple'' False = Inr gd \<longrightarrow>
        (\<exists>gs. propagate_guide abc nat_propagate 2 [''b'', ''a''] ''simple'' False = Inr gs \<and>
           length gs = length [''b'', ''a''] \<and>
           (\<forall>i<length [''b'', ''a''].
              guide_at abc nat_propagate 2 ([''b'', ''a''] ! i) ''simple'' False = Inr (gs ! i)))"
    using h3 propagate_guide_spec [of abc "[''b'', ''a'']" nat_propagate 2 "''simple''" False]
    by blast
  have db: "d3 = ''b''"
  proof (rule ccontr)
    assume "d3 \<noteq> ''b''"
    then have "d3 = ''a''" using dmem3 by simp
    with dlate3 show False by (simp add: enc_defs)
  qed
  obtain hs where hs: "propagate_guide abc nat_propagate 2 [''b'', ''a''] ''simple'' False = Inr hs"
    "length hs = length [''b'', ''a'']"
    "\<forall>i<length [''b'', ''a''].
       guide_at abc nat_propagate 2 ([''b'', ''a''] ! i) ''simple'' False = Inr (hs ! i)"
    using ok3 guide_at_abc(4) unfolding db by blast
  obtain h0 h1 where l3: "hs = [h0, h1]"
    using hs(2) by (auto simp: length_Suc_conv)
  have "h0 = 0" using hs(3) [rule_format, of 0] guide_at_abc(4) by (simp add: l3)
  moreover have "h1 = 1" using hs(3) [rule_format, of 1] guide_at_abc(5) by (simp add: l3)
  ultimately have 3: "propagate_guide abc nat_propagate 2 [''b'', ''a''] ''simple'' False = Inr [0, 1]"
    using hs(1) l3 by simp
  from 1 2 3 guide_at_abc(1,2) show ?thesis by simp
qed

subsection \<open>Encoding the registered layers\<close>

lemma run_children_values:
  assumes "run_children children k x st = (Inr st', calls)"
    and "distinct (map fst children)"
  shows "(\<forall>n\<in>fst ` set children. \<exists>v.
            apply_children (take (Suc (index (map fst children) n)) children) x = Inr v \<and>
            map_of st' (n, k) = Some v) \<and>
         (\<forall>key. key \<notin> (\<lambda>n. (n, k)) ` fst ` set children \<longrightarrow> map_of st' key = map_of st key)"
  using assms
proof (induction children arbitrary: x st calls)
  case Nil
  then show ?case by simp
next
  case (Cons c children)
  obtain name module where c: "c = (name, module)" by (cases c)
  from Cons.prems(1) obtain out where out: "module x = Inr out"
    by (auto simp: c split: sum.splits prod.splits)
  obtain res calls' where r: "run_children children k out (AList.update (name, k) out st) = (res, calls')"
    by (cases "run_children children k out (AList.update (name, k) out st)")
  with Cons.prems(1) out have res: "res = Inr st'" by (simp add: c)
  have dist: "distinct (map fst children)" and fresh: "name \<notin> fst ` set children"
    using Cons.prems(2) by (simp_all add: c)
  from Cons.IH [OF r [unfolded res] dist]
  have inside: "\<forall>n\<in>fst ` set children. \<exists>v.
            apply_children (take (Suc (index (map fst children) n)) children) out = Inr v \<and>
            map_of st' (n, k) = Some v"
    and outside: "\<forall>key. key \<notin> (\<lambda>n. (n, k)) ` fst ` set children \<longrightarrow>
            map_of st' key = map_of (AList.update (name, k) out st) key"
    by blast+
  have a: "\<exists>v. apply_children (take (Suc (index (map fst (c # children)) n)) (c # children)) x = Inr v \<and>
            map_of st' (n, k) = Some v"
    if n: "n \<in> fst ` set (c # children)" for n
  proof (cases "n = name")
    case True
    have "(name, k) \<notin> (\<lambda>n. (n, k)) ` fst ` set children" using fresh by auto
    then have "map_of st' (name, k) = Some out"
      using outside by (simp add: update_conv')
    then show ?thesis using True out by (simp add: c)
  next
    case False
    then have "n \<in> fst ` set children" using n by (auto simp: c)
    with inside obtain v where
      "apply_children (take (Suc (index (map fst children) n)) children) out = Inr v"
      "map_of st' (n, k) = Some v"
      by blast
    then show ?thesis using False out by (simp add: c)
  qed
  have b: "map_of st' key = map_of st key"
    if "key \<notin> (\<lambda>n. (n, k)) ` fst ` set (c # children)" for key
  proof -
    have nk: "key \<noteq> (name, k)" "key \<notin> (\<lambda>n. (n, k)) ` fst ` set children"
      using that by (auto simp: c)
    have 1: "map_of st' key = map_of (AList.update (name, k) out st) key"
      using outside nk(2) by blast
    have 2: "map_of (AList.update (name, k) out st) key = map_of st key"
      using nk(1) by (simp add: update_conv')
    from 1 2 show ?thesis by simp
  qed
  from a b show ?case by blast
qed

lemma update_fresh: "k \<notin> fst ` set d \<Longrightarrow> AList.update k v d = d @ [(k, v)]"
  by (induction d) auto

lemma dict_update_fresh:
  "distinct (map fst ps) \<Longrightarrow> fst ` set ps \<inter> fst ` set d = {} \<Longrightarrow> dict_update d ps = d @ ps"
proof (induction ps arbitrary: d)
  case Nil
  then show ?case by (simp add: dict_update_def)
next
  case (Cons p ps)
  obtain k v where p: "p = (k, v)" by (cases p)
  have fresh: "k \<notin> fst ` set d" using Cons.prems(2) by (auto simp: p)
  have "dict_update (d @ [(k, v)]) ps = (d @ [(k, v)]) @ ps"
    using Cons.prems by (intro Cons.IH) (auto simp: p)
  then show ?case
    using fresh by (simp add: dict_update_def p update_fresh)
qed

lemma dict_zip:
  "distinct keys \<Longrightarrow> length keys = length vs \<Longrightarrow> dict (zip keys vs) = zip keys vs"
  using dict_update_fresh [of "zip keys vs" "[]"] by (simp add: dict_def)


lemma forward_activation:
  assumes dist: "distinct (children_names e)"
    and coh: "\<forall>n v. contains e n \<and> map_of (cache e) (n, TensorKey x) = Some v \<longrightarrow>
                activation e n x = Inr v"
    and fw: "forward e TensorKey x layers store = (Inr encs, e1, calls)"
  shows "length encs = length layers"
    and "\<forall>i<length layers. contains e (layers ! i) \<longrightarrow>
           activation e (layers ! i) x = Inr (encs ! i)"
proof -
  let ?k = "TensorKey x"
  define diff where "diff = filter (\<lambda>n. (n, TensorKey x) \<notin> fst ` set (cache e)) (remdups layers)"
  note eq = forward_eq_diff [where TensorKey = TensorKey and x = x and e = e and layers = layers
      and store = store, OF diff_def]
  have names: "children_names e = map fst (modules e)"
    by (simp add: children_names_def named_children_def)
  have d': "distinct (map fst (modules e))" using dist by (simp add: names)
  have "\<exists>st. encs = map (\<lambda>n. the (map_of st (n, ?k))) layers \<and>
          (\<forall>n\<in>set layers. contains e n \<longrightarrow> activation e n x = Inr (the (map_of st (n, ?k))))"
  proof (cases "diff = []")
    case True
    then have encs: "encs = map (\<lambda>n. the (map_of (cache e) (n, ?k))) layers"
      using fw eq by auto
    have cached: "\<forall>n\<in>set layers. (n, ?k) \<in> fst ` set (cache e)"
      using True unfolding diff_def by (simp add: filter_empty_conv)
    have "activation e n x = Inr (the (map_of (cache e) (n, ?k)))"
      if n: "n \<in> set layers" "contains e n" for n
    proof -
      have "map_of (cache e) (n, ?k) \<noteq> None"
        using cached n(1) by (simp add: map_of_eq_None_iff)
      then obtain v where v: "map_of (cache e) (n, ?k) = Some v" by blast
      with coh n(2) show ?thesis by simp
    qed
    with encs show ?thesis by blast
  next
    case False
    from fw eq False obtain d where d: "extract_deepest_layer e diff = Inr d"
      by (cases "extract_deepest_layer e diff") auto
    note dd = extract_deepest_layer_InrD [OF d]
    let ?j = "index (children_names e) d"
    let ?children = "take (Suc ?j) (modules e)"
    obtain res calls' where r: "run_children ?children ?k x (cache e) = (res, calls')"
      by (cases "run_children ?children ?k x (cache e)")
    from fw eq False d r obtain st' where st: "res = Inr st'"
      by (cases res) auto
    have encs: "encs = map (\<lambda>n. the (map_of st' (n, ?k))) layers"
      using fw eq False d r st by auto
    have dc: "distinct (map fst ?children)"
    proof -
      have "distinct (take (Suc ?j) (map fst (modules e)))"
        using d' by (rule distinct_take)
      then show ?thesis by (simp only: take_map)
    qed
    note vals = run_children_values [OF r [unfolded st] dc]
    have "activation e n x = Inr (the (map_of st' (n, ?k)))"
      if n: "n \<in> set layers" "contains e n" for n
    proof (cases "index (children_names e) n \<le> ?j")
      case True
      have mem: "n \<in> fst ` set (modules e)" using n(2) by (simp add: contains_def names)
      have le: "index (map fst (modules e)) n \<le> index (map fst (modules e)) d"
        using True by (simp add: names)
      note p = take_Suc_index_prefix [OF d' mem le]
      have "n \<in> fst ` set ?children" using p(1) by (simp add: names)
      with vals obtain v where
        "apply_children (take (Suc (index (map fst ?children) n)) ?children) x = Inr v"
        "map_of st' (n, ?k) = Some v"
        by blast
      then show ?thesis using p(2) by (simp add: activation_def names)
    next
      case False
      then have "n \<notin> set diff" using dd(4) by auto
      then have cached: "(n, ?k) \<in> fst ` set (cache e)"
        using n(1) by (simp add: diff_def)
      then have "map_of (cache e) (n, ?k) \<noteq> None" by (simp add: map_of_eq_None_iff)
      then obtain v where v: "map_of (cache e) (n, ?k) = Some v" by blast
      have "n \<notin> set (take (Suc ?j) (children_names e))"
        using dist n(2) False by (intro not_in_take_index) (simp_all add: contains_def)
      then have "n \<notin> fst ` set ?children" by (simp add: names take_map)
      then have "(n, ?k) \<notin> (\<lambda>n. (n, ?k)) ` fst ` set ?children" by auto
      with vals have "map_of st' (n, ?k) = map_of (cache e) (n, ?k)" by blast
      with v coh n(2) show ?thesis by simp
    qed
    with encs show ?thesis by blast
  qed
  then obtain st where encs: "encs = map (\<lambda>n. the (map_of st (n, ?k))) layers"
    and act: "\<forall>n\<in>set layers. contains e n \<longrightarrow> activation e n x = Inr (the (map_of st (n, ?k)))"
    by blast
  show "length encs = length layers" using encs by simp
  show "\<forall>i<length layers. contains e (layers ! i) \<longrightarrow>
           activation e (layers ! i) x = Inr (encs ! i)"
    using encs act by simp
qed


lemma forward_preserves:
  "modules (fst (snd (forward e TensorKey x layers store))) = modules e \<and>
   registered_layers (fst (snd (forward e TensorKey x layers store))) = registered_layers e"
proof -
  define diff where "diff = filter (\<lambda>n. (n, TensorKey x) \<notin> fst ` set (cache e)) (remdups layers)"
  show ?thesis
    unfolding forward_eq_diff [where TensorKey = TensorKey and x = x and e = e and layers = layers
      and store = store, OF diff_def]
    by (auto split: sum.splits prod.splits)
qed

lemma encode_result:
  assumes ne: "registered_layers e \<noteq> []" and dr: "distinct (registered_layers e)"
    and dist: "distinct (children_names e)"
    and coh: "\<forall>n v. contains e n \<and> map_of (cache e) (n, TensorKey x) = Some v \<longrightarrow>
                activation e n x = Inr v"
    and ok: "fst (encode e TensorKey x) = Inr ()"
  shows "\<exists>encs. cache (fst (snd (encode e TensorKey x))) =
             zip (map (\<lambda>l. (l, TensorKey x)) (registered_layers e)) encs \<and>
           length encs = length (registered_layers e) \<and>
           (\<forall>i<length (registered_layers e). contains e (registered_layers e ! i) \<longrightarrow>
              activation e (registered_layers e ! i) x = Inr (encs ! i))"
    and "modules (fst (snd (encode e TensorKey x))) = modules e"
    and "registered_layers (fst (snd (encode e TensorKey x))) = registered_layers e"
proof -
  let ?R = "registered_layers e"
  let ?keys = "map (\<lambda>l. (l, TensorKey x)) ?R"
  obtain res e1 calls where fw: "forward e TensorKey x ?R True = (res, e1, calls)"
    by (cases "forward e TensorKey x ?R True")
  obtain encs where res: "res = Inr encs"
    using ok ne fw by (cases res) (simp_all add: encode_def Let_def)
  have enc: "encode e TensorKey x = (Inr (), e1\<lparr>cache := dict (zip ?keys encs)\<rparr>, calls)"
    using ne fw res by (simp add: encode_def Let_def)
  note act = forward_activation [OF dist coh fw [unfolded res]]
  have dk: "distinct ?keys" using dr by (simp add: distinct_map inj_on_def)
  have dz: "dict (zip ?keys encs) = zip ?keys encs"
    using dk act(1) by (intro dict_zip) simp_all
  have pres: "modules e1 = modules e \<and> registered_layers e1 = registered_layers e"
    using forward_preserves [of e TensorKey x ?R True] fw by simp
  show "\<exists>encs. cache (fst (snd (encode e TensorKey x))) = zip ?keys encs \<and>
           length encs = length ?R \<and>
           (\<forall>i<length ?R. contains e (?R ! i) \<longrightarrow> activation e (?R ! i) x = Inr (encs ! i))"
    using enc dz act by (intro exI [of _ encs]) simp
  show "modules (fst (snd (encode e TensorKey x))) = modules e"
    using enc pres by simp
  show "registered_layers (fst (snd (encode e TensorKey x))) = registered_layers e"
    using enc pres by simp
qed

text \<open>
  Claim C2. With no registered layer, \<^verbatim>\<open>encode\<close> does nothing. Otherwise, when it
  returns normally, the cache holds exactly one entry per registered layer, keyed by the
  layer and the key of the input, in the order of the registered layers, and nothing
  else; the entry of a registered layer that is a child of the encoder is the activation
  of that layer for the input. The children and the registered layers are unchanged.
  The hypotheses are the invariants of the data: the registered layers are a set, the
  names of the children are distinct, and the entries that the cache already holds under
  the key of the input are the activations for this input (the coherence of the cache
  that the specification requires of the tensor keys).
\<close>

theorem encode_replaces_cache:
  "(registered_layers e = [] \<longrightarrow> encode e TensorKey x = (Inr (), e, [])) \<and>
   (registered_layers e \<noteq> [] \<and> distinct (registered_layers e) \<and>
    distinct (children_names e) \<and>
    (\<forall>n v. contains e n \<and> map_of (cache e) (n, TensorKey x) = Some v \<longrightarrow>
       activation e n x = Inr v) \<and>
    fst (encode e TensorKey x) = Inr () \<longrightarrow>
      map fst (cache (fst (snd (encode e TensorKey x)))) =
        map (\<lambda>l. (l, TensorKey x)) (registered_layers e) \<and>
      (\<forall>l\<in>set (registered_layers e). contains e l \<longrightarrow>
         (\<exists>v. map_of (cache (fst (snd (encode e TensorKey x)))) (l, TensorKey x) = Some v \<and>
            activation e l x = Inr v)) \<and>
      modules (fst (snd (encode e TensorKey x))) = modules e \<and>
      registered_layers (fst (snd (encode e TensorKey x))) = registered_layers e)"
proof -
  have 1: "registered_layers e = [] \<longrightarrow> encode e TensorKey x = (Inr (), e, [])"
    by (simp add: encode_def)
  have 2: "map fst (cache (fst (snd (encode e TensorKey x)))) =
        map (\<lambda>l. (l, TensorKey x)) (registered_layers e) \<and>
      (\<forall>l\<in>set (registered_layers e). contains e l \<longrightarrow>
         (\<exists>v. map_of (cache (fst (snd (encode e TensorKey x)))) (l, TensorKey x) = Some v \<and>
            activation e l x = Inr v)) \<and>
      modules (fst (snd (encode e TensorKey x))) = modules e \<and>
      registered_layers (fst (snd (encode e TensorKey x))) = registered_layers e"
    if h: "registered_layers e \<noteq> []" "distinct (registered_layers e)"
      "distinct (children_names e)"
      "\<forall>n v. contains e n \<and> map_of (cache e) (n, TensorKey x) = Some v \<longrightarrow>
         activation e n x = Inr v"
      "fst (encode e TensorKey x) = Inr ()"
  proof -
    let ?R = "registered_layers e"
    let ?keys = "map (\<lambda>l. (l, TensorKey x)) ?R"
    let ?c = "cache (fst (snd (encode e TensorKey x)))"
    note r = encode_result [OF h]
    from r(1) obtain encs where c: "?c = zip ?keys encs" and len: "length encs = length ?R"
      and act: "\<forall>i<length ?R. contains e (?R ! i) \<longrightarrow> activation e (?R ! i) x = Inr (encs ! i)"
      by blast
    have dk: "distinct ?keys" using h(2) by (simp add: distinct_map inj_on_def)
    have a: "map fst ?c = ?keys" using c len by simp
    have b: "\<exists>v. map_of ?c (l, TensorKey x) = Some v \<and> activation e l x = Inr v"
      if l: "l \<in> set ?R" "contains e l" for l
    proof -
      from l(1) obtain i where i: "i < length ?R" "?R ! i = l" by (metis in_set_conv_nth)
      have "map_of (zip ?keys encs) (?keys ! i) = Some (encs ! i)"
        using dk len i(1) by (intro map_of_zip_nth) simp_all
      then have "map_of ?c (l, TensorKey x) = Some (encs ! i)"
        using c i by simp
      moreover have "activation e l x = Inr (encs ! i)" using act i l(2) by blast
      ultimately show ?thesis by blast
    qed
    from a b r(2,3) show ?thesis by blast
  qed
  from 1 2 show ?thesis by blast
qed


lemmas fw_defs = forward_def Let_def extract_deepest_layer_def verify_layer_def
  named_children_to_def dict_update_def dict_def

lemma abc_registered_eq:
  "abc_registered =
     abc\<lparr>registered_layers := [''a'', ''b''],
         cache := [((''a'', 0), 1), ((''a'', 5), 6), ((''b'', 5), 12), ((''c'', 5), 22)]\<rparr>"
  by (simp add: abc_registered_def extract_single_layer_encoder_def fw_defs enc_defs)

lemma encode_abc_registered:
  "encode abc_registered nat_key 0 =
     (Inr (), abc_registered\<lparr>cache := [((''a'', 0), 1), ((''b'', 0), 2)]\<rparr>, [''a'', ''b''])"
  by (simp add: abc_registered_eq encode_def fw_defs enc_defs)

theorem encode_replaces_cache_witness:
  "encode abc nat_key 0 = (Inr (), abc, []) \<and>
   cache abc_registered = [((''a'', 0), 1), ((''a'', 5), 6), ((''b'', 5), 12), ((''c'', 5), 22)] \<and>
   fst (encode abc_registered nat_key 0) = Inr () \<and>
   map fst (cache (fst (snd (encode abc_registered nat_key 0)))) = [(''a'', 0), (''b'', 0)] \<and>
   map_of (cache (fst (snd (encode abc_registered nat_key 0)))) (''a'', 0) = Some 1 \<and>
   map_of (cache (fst (snd (encode abc_registered nat_key 0)))) (''b'', 0) = Some 2 \<and>
   activation abc_registered ''a'' 0 = Inr 1 \<and> activation abc_registered ''b'' 0 = Inr 2"
proof -
  have r0: "registered_layers abc = []" by (simp add: enc_defs)
  have 1: "encode abc nat_key 0 = (Inr (), abc, [])"
    using r0 encode_replaces_cache [where e = abc and TensorKey = nat_key and x = 0] by blast
  have c: "cache abc_registered =
      [((''a'', 0), 1), ((''a'', 5), 6), ((''b'', 5), 12), ((''c'', 5), 22)]"
    by (simp add: abc_registered_eq)
  have act: "activation abc_registered ''a'' 0 = Inr 1" "activation abc_registered ''b'' 0 = Inr 2"
    by (simp_all add: activation_def abc_registered_eq enc_defs)
  have ok: "fst (encode abc_registered nat_key 0) = Inr ()"
    by (simp add: encode_abc_registered)
  have coh: "\<forall>n v. contains abc_registered n \<and>
      map_of (cache abc_registered) (n, nat_key 0) = Some v \<longrightarrow>
        activation abc_registered n 0 = Inr v"
    using act(1) by (auto simp: c nat_key_def split: if_splits)
  have h: "registered_layers abc_registered \<noteq> [] \<and> distinct (registered_layers abc_registered) \<and>
      distinct (children_names abc_registered)"
    by (simp add: abc_registered_eq enc_defs)
  have known: "contains abc_registered ''a''" "contains abc_registered ''b''"
    by (simp_all add: abc_registered_eq enc_defs)
  have reg: "registered_layers abc_registered = [''a'', ''b'']"
    by (simp add: abc_registered_eq)
  note t = encode_replaces_cache [where e = abc_registered and TensorKey = nat_key and x = 0,
      THEN conjunct2, rule_format, OF conjI [OF conjunct1 [OF h] conjI [OF conjunct1 [OF conjunct2 [OF h]]
        conjI [OF conjunct2 [OF conjunct2 [OF h]] conjI [OF coh ok]]]]]
  have keys: "map fst (cache (fst (snd (encode abc_registered nat_key 0)))) = [(''a'', 0), (''b'', 0)]"
    using t by (simp add: reg nat_key_def)
  have va: "map_of (cache (fst (snd (encode abc_registered nat_key 0)))) (''a'', 0) = Some 1"
    using t known(1) act(1) by (auto simp: reg nat_key_def)
  have vb: "map_of (cache (fst (snd (encode abc_registered nat_key 0)))) (''b'', 0) = Some 2"
    using t known(2) act(2) by (auto simp: reg nat_key_def)
  from 1 c ok keys va vb act show ?thesis by simp
qed

subsection \<open>Invariants of the reachable states\<close>

lemma set_update_subset: "set (AList.update k v al) \<subseteq> insert (k, v) (set al)"
  by (induction al) auto

lemma set_dict_update_subset: "set (dict_update d ps) \<subseteq> set d \<union> set ps"
proof (induction ps arbitrary: d)
  case Nil
  then show ?case by (simp add: dict_update_def)
next
  case (Cons p ps)
  obtain k v where p: "p = (k, v)" by (cases p)
  have "set (dict_update (AList.update k v d) ps) \<subseteq> set (AList.update k v d) \<union> set ps"
    by (rule Cons.IH)
  then show ?case
    using set_update_subset [of k v d] by (auto simp: dict_update_def p)
qed

lemma run_children_entries:
  assumes "run_children children k x st = (Inr st', calls)"
    and "distinct (map fst children)"
    and "((n, k'), v) \<in> set st'"
  shows "((n, k'), v) \<in> set st \<or>
         (k' = k \<and> n \<in> fst ` set children \<and>
          apply_children (take (Suc (index (map fst children) n)) children) x = Inr v)"
  using assms
proof (induction children arbitrary: x st calls)
  case Nil
  then show ?case by simp
next
  case (Cons c children)
  obtain name module where c: "c = (name, module)" by (cases c)
  from Cons.prems(1) obtain out where out: "module x = Inr out"
    by (auto simp: c split: sum.splits prod.splits)
  obtain res calls' where r: "run_children children k out (AList.update (name, k) out st) = (res, calls')"
    by (cases "run_children children k out (AList.update (name, k) out st)")
  with Cons.prems(1) out have res: "res = Inr st'" by (simp add: c)
  have dist: "distinct (map fst children)" and fresh: "name \<notin> fst ` set children"
    using Cons.prems(2) by (simp_all add: c)
  from Cons.IH [OF r [unfolded res] dist Cons.prems(3)]
  consider (old) "((n, k'), v) \<in> set (AList.update (name, k) out st)"
    | (new) "k' = k" "n \<in> fst ` set children"
        "apply_children (take (Suc (index (map fst children) n)) children) out = Inr v"
    by blast
  then show ?case
  proof cases
    case old
    then have "((n, k'), v) \<in> set st \<or> ((n, k'), v) = ((name, k), out)"
      using set_update_subset [of "(name, k)" out st] by auto
    then show ?thesis using out by (auto simp: c)
  next
    case new
    then have "n \<noteq> name" using fresh by auto
    then show ?thesis using new out by (auto simp: c)
  qed
qed

lemma index_lt_of_take: "n \<in> set (take i xs) \<Longrightarrow> index xs n < i"
  by (induction xs arbitrary: i) (auto simp: take_Cons split: nat.splits if_splits)


lemma coherent_map_of:
  "coherent TensorKey e \<Longrightarrow>
     \<forall>n v. contains e n \<and> map_of (cache e) (n, TensorKey x) = Some v \<longrightarrow> activation e n x = Inr v"
  unfolding coherent_def by (blast dest: map_of_SomeD)

lemma coherent_same_modules:
  assumes "coherent TensorKey e" "modules e' = modules e"
    and "\<forall>n k v. ((n, k), v) \<in> set (cache e') \<longrightarrow> ((n, k), v) \<in> set (cache e) \<or>
           (\<forall>x. contains e n \<and> TensorKey x = k \<longrightarrow> activation e n x = Inr v)"
  shows "coherent TensorKey e'"
proof -
  have c: "contains e' n = contains e n" for n
    using assms(2) by (simp add: contains_def children_names_def named_children_def)
  have a: "activation e' n x = activation e n x" for n x
    using assms(2) by (simp add: activation_def children_names_def named_children_def)
  show ?thesis
    unfolding coherent_def c a using assms(1,3) unfolding coherent_def by blast
qed

lemma well_formed_forward:
  assumes inj: "inj TensorKey" and wf: "well_formed TensorKey e"
  shows "well_formed TensorKey (fst (snd (forward e TensorKey x layers store)))"
proof -
  let ?e' = "fst (snd (forward e TensorKey x layers store))"
  let ?k = "TensorKey x"
  from wf have dist: "distinct (children_names e)" and dr: "distinct (registered_layers e)"
    and coh: "coherent TensorKey e"
    by (simp_all add: well_formed_def)
  note pres = forward_preserves [of e TensorKey x layers store]
  have names: "children_names e = map fst (modules e)"
    by (simp add: children_names_def named_children_def)
  have d': "distinct (map fst (modules e))" using dist by (simp add: names)
  define diff where "diff = filter (\<lambda>n. (n, TensorKey x) \<notin> fst ` set (cache e)) (remdups layers)"
  note eq = forward_eq_diff [where TensorKey = TensorKey and x = x and e = e and layers = layers
      and store = store, OF diff_def]
  have entries: "((n, k), v) \<in> set (cache e) \<or>
           (\<forall>y. contains e n \<and> TensorKey y = k \<longrightarrow> activation e n y = Inr v)"
    if ent: "((n, k), v) \<in> set (cache ?e')" for n k v
  proof (cases "cache ?e' = cache e")
    case True
    with ent show ?thesis by simp
  next
    case False
    then have ne: "diff \<noteq> []" unfolding eq by (auto split: if_splits)
    from False ne obtain d where d: "extract_deepest_layer e diff = Inr d"
      unfolding eq by (cases "extract_deepest_layer e diff") auto
    let ?j = "index (children_names e) d"
    let ?children = "take (Suc ?j) (modules e)"
    obtain res calls where r: "run_children ?children ?k x (cache e) = (res, calls)"
      by (cases "run_children ?children ?k x (cache e)")
    from False ne d r obtain st' where st: "res = Inr st'"
      unfolding eq by (cases res) auto
    have c': "cache ?e' = dict_update (cache e) st'"
      using False ne d r st unfolding eq by (auto split: if_splits)
    have dc: "distinct (map fst ?children)"
    proof -
      have "distinct (take (Suc ?j) (map fst (modules e)))"
        using d' by (rule distinct_take)
      then show ?thesis by (simp only: take_map)
    qed
    from ent c' have "((n, k), v) \<in> set (cache e) \<or> ((n, k), v) \<in> set st'"
      using set_dict_update_subset [of "cache e" st'] by auto
    then show ?thesis
    proof
      assume "((n, k), v) \<in> set (cache e)"
      then show ?thesis by simp
    next
      assume "((n, k), v) \<in> set st'"
      from run_children_entries [OF r [unfolded st] dc this]
      show ?thesis
      proof
        assume "((n, k), v) \<in> set (cache e)"
        then show ?thesis by simp
      next
        assume new: "k = ?k \<and> n \<in> fst ` set ?children \<and>
          apply_children (take (Suc (index (map fst ?children) n)) ?children) x = Inr v"
        then have "n \<in> set (take (Suc ?j) (map fst (modules e)))" by (simp add: take_map)
        then have lt: "index (map fst (modules e)) n < Suc ?j" by (rule index_lt_of_take)
        have mem: "n \<in> fst ` set (modules e)" using new by (auto dest: in_set_takeD)
        have le: "index (map fst (modules e)) n \<le> index (map fst (modules e)) d"
          using lt by (simp add: names)
        note p = take_Suc_index_prefix [OF d' mem le]
        have act: "activation e n x = Inr v"
          using new p(2) by (simp add: activation_def names)
        have "activation e n y = Inr v" if "TensorKey y = k" for y
        proof -
          have "y = x" using that new inj by (auto dest: injD)
          with act show ?thesis by simp
        qed
        then show ?thesis by blast
      qed
    qed
  qed
  have "coherent TensorKey ?e'"
  proof (rule coherent_same_modules [OF coh])
    show "modules ?e' = modules e" using pres by (rule conjunct1)
    show "\<forall>n k v. ((n, k), v) \<in> set (cache ?e') \<longrightarrow> ((n, k), v) \<in> set (cache e) \<or>
           (\<forall>x. contains e n \<and> TensorKey x = k \<longrightarrow> activation e n x = Inr v)"
      by (intro allI impI) (rule entries)
  qed
  moreover have "distinct (children_names ?e')"
    using dist pres by (simp add: children_names_def named_children_def)
  moreover have "distinct (registered_layers ?e')" using dr pres by simp
  ultimately show ?thesis by (simp add: well_formed_def)
qed


lemma well_formed_encode:
  assumes inj: "inj TensorKey" and wf: "well_formed TensorKey e"
  shows "well_formed TensorKey (fst (snd (encode e TensorKey x)))"
proof (cases "registered_layers e = []")
  case True
  with wf show ?thesis by (simp add: encode_def)
next
  case ne: False
  let ?R = "registered_layers e"
  let ?keys = "map (\<lambda>l. (l, TensorKey x)) ?R"
  obtain res e1 calls where fw: "forward e TensorKey x ?R True = (res, e1, calls)"
    by (cases "forward e TensorKey x ?R True")
  have wf1: "well_formed TensorKey e1"
    using well_formed_forward [OF inj wf, of x ?R True] fw by simp
  have pres: "modules e1 = modules e \<and> registered_layers e1 = registered_layers e"
    using forward_preserves [of e TensorKey x ?R True] fw by simp
  show ?thesis
  proof (cases res)
    case (Inl err)
    then show ?thesis using ne fw wf1 by (simp add: encode_def Let_def)
  next
    case (Inr encs)
    let ?e' = "e1\<lparr>cache := dict (zip ?keys encs)\<rparr>"
    have enc: "fst (snd (encode e TensorKey x)) = ?e'"
      using ne fw Inr by (simp add: encode_def Let_def)
    from wf have dist: "distinct (children_names e)" and dr: "distinct (registered_layers e)"
      and coh: "coherent TensorKey e"
      by (simp_all add: well_formed_def)
    note act = forward_activation [OF dist coherent_map_of [OF coh] fw [unfolded Inr]]
    have "coherent TensorKey ?e'"
    proof (rule coherent_same_modules [OF coh])
      show "modules ?e' = modules e" using pres by simp
      show "\<forall>n k v. ((n, k), v) \<in> set (cache ?e') \<longrightarrow> ((n, k), v) \<in> set (cache e) \<or>
           (\<forall>y. contains e n \<and> TensorKey y = k \<longrightarrow> activation e n y = Inr v)"
      proof (intro allI impI)
        fix n k v assume "((n, k), v) \<in> set (cache ?e')"
        then have "((n, k), v) \<in> set (zip ?keys encs)"
          using set_dict_update_subset [of "[]" "zip ?keys encs"] by (auto simp: dict_def)
        then obtain i where i: "i < length ?R" "(n, k) = ?keys ! i" "v = encs ! i"
          using act(1) by (auto simp: in_set_zip)
        then have nk: "n = ?R ! i" "k = TensorKey x" by simp_all
        have "activation e n y = Inr v" if "contains e n" "TensorKey y = k" for y
        proof -
          have "y = x" using that(2) nk(2) inj by (auto dest: injD)
          then show ?thesis using act(2) i(1,3) nk(1) that(1) by simp
        qed
        then show "((n, k), v) \<in> set (cache e) \<or>
           (\<forall>y. contains e n \<and> TensorKey y = k \<longrightarrow> activation e n y = Inr v)"
          by blast
      qed
    qed
    moreover have "distinct (children_names ?e')"
      using dist pres by (simp add: children_names_def named_children_def)
    moreover have "distinct (registered_layers ?e')" using dr pres by simp
    ultimately show ?thesis unfolding enc by (simp add: well_formed_def)
  qed
qed

lemma well_formed_extract:
  assumes wf: "well_formed TensorKey e"
  shows "well_formed TensorKey (snd (extract_single_layer_encoder e layer))"
proof (cases "contains e layer")
  case False
  with wf show ?thesis by (simp add: extract_single_layer_encoder_def verify_layer_def)
next
  case True
  let ?e' = "e\<lparr>registered_layers := List.insert layer (registered_layers e)\<rparr>"
  have e': "snd (extract_single_layer_encoder e layer) = ?e'"
    using True by (simp add: extract_single_layer_encoder_def verify_layer_def)
  from wf have dist: "distinct (children_names e)" and dr: "distinct (registered_layers e)"
    and coh: "coherent TensorKey e"
    by (simp_all add: well_formed_def)
  have "coherent TensorKey ?e'"
    by (rule coherent_same_modules [OF coh]) simp_all
  moreover have "distinct (children_names ?e')"
    using dist by (simp add: children_names_def named_children_def)
  moreover have "distinct (registered_layers ?e')" using dr by simp
  ultimately show ?thesis unfolding e' by (simp add: well_formed_def)
qed

lemma well_formed_clear_cache:
  assumes wf: "well_formed TensorKey e"
  shows "well_formed TensorKey (clear_cache e)"
proof -
  from wf have dist: "distinct (children_names e)" and dr: "distinct (registered_layers e)"
    and coh: "coherent TensorKey e"
    by (simp_all add: well_formed_def)
  have "coherent TensorKey (clear_cache e)"
    by (rule coherent_same_modules [OF coh]) (simp_all add: clear_cache_def)
  moreover have "distinct (children_names (clear_cache e))"
    using dist by (simp add: children_names_def named_children_def clear_cache_def)
  moreover have "distinct (registered_layers (clear_cache e))"
    using dr by (simp add: clear_cache_def)
  ultimately show ?thesis by (simp add: well_formed_def)
qed

lemma well_formed_trim:
  assumes wf: "well_formed TensorKey e"
  shows "well_formed TensorKey (snd (trim e given))"
proof -
  let ?ls = "case given of None \<Rightarrow> registered_layers e | Some ls \<Rightarrow> ls"
  from wf have dist: "distinct (children_names e)" and dr: "distinct (registered_layers e)"
    and coh: "coherent TensorKey e"
    by (simp_all add: well_formed_def)
  have names: "children_names e = map fst (modules e)"
    by (simp add: children_names_def named_children_def)
  have d': "distinct (map fst (modules e))" using dist by (simp add: names)
  show ?thesis
  proof (cases "extract_deepest_layer e ?ls")
    case (Inl err)
    then show ?thesis using wf trim_error [of e given err] by simp
  next
    case (Inr d)
    let ?j = "index (children_names e) d"
    let ?e' = "e\<lparr>modules := take (Suc ?j) (modules e)\<rparr>"
    have e': "snd (trim e given) = ?e'"
      using trim_eq [OF dist Inr] by simp
    have dn: "distinct (children_names ?e')"
    proof -
      have "distinct (take (Suc ?j) (map fst (modules e)))" using d' by (rule distinct_take)
      then show ?thesis by (simp add: children_names_def named_children_def take_map)
    qed
    have "coherent TensorKey ?e'"
      unfolding coherent_def
    proof (intro allI impI)
      fix n k v x
      assume a: "((n, k), v) \<in> set (cache ?e') \<and> contains ?e' n \<and> TensorKey x = k"
      then have mem': "n \<in> set (take (Suc ?j) (map fst (modules e)))"
        by (simp add: contains_def children_names_def named_children_def take_map)
      then have lt: "index (map fst (modules e)) n < Suc ?j" by (rule index_lt_of_take)
      have mem: "n \<in> fst ` set (modules e)" using mem' by (auto dest: in_set_takeD)
      have le: "index (map fst (modules e)) n \<le> index (map fst (modules e)) d"
        using lt by (simp add: names)
      note p = take_Suc_index_prefix [OF d' mem le]
      have "contains e n" using mem by (simp add: contains_def names)
      then have "activation e n x = Inr v" using coh a unfolding coherent_def by auto
      then show "activation ?e' n x = Inr v"
        using p(2) by (simp add: activation_def children_names_def named_children_def)
    qed
    with dn dr show ?thesis unfolding e' by (simp add: well_formed_def)
  qed
qed

lemma well_formed_init:
  "distinct (map fst ms) \<Longrightarrow> well_formed TensorKey (MultiLayerEncoder ms)"
  by (simp add: well_formed_def coherent_def MultiLayerEncoder_def children_names_def
      named_children_def)

text \<open>
  Every state that a program can reach satisfies the invariants, provided that distinct
  tensors have distinct keys.
\<close>

lemma reachable_well_formed:
  "reachable TensorKey e \<Longrightarrow> inj TensorKey \<Longrightarrow> well_formed TensorKey e"
proof (induction rule: reachable.induct)
  case (init ms)
  then show ?case by (simp add: well_formed_init)
next
  case (after_forward e x layers store)
  then show ?case by (simp add: well_formed_forward)
next
  case (after_encode e x)
  then show ?case by (simp add: well_formed_encode)
next
  case (after_extract e layer)
  then show ?case by (simp add: well_formed_extract)
next
  case (after_clear_cache e)
  then show ?case by (simp add: well_formed_clear_cache)
next
  case (after_trim e given)
  then show ?case by (simp add: well_formed_trim)
qed

text \<open>
  In particular the hypotheses under which \<^verbatim>\<open>encode\<close> is characterised above hold in
  every reachable state.
\<close>

lemma encode_reachable:
  assumes "reachable TensorKey e" "inj TensorKey"
    and "registered_layers e \<noteq> []" "fst (encode e TensorKey x) = Inr ()"
  shows "\<exists>encs. cache (fst (snd (encode e TensorKey x))) =
             zip (map (\<lambda>l. (l, TensorKey x)) (registered_layers e)) encs \<and>
           length encs = length (registered_layers e) \<and>
           (\<forall>i<length (registered_layers e). contains e (registered_layers e ! i) \<longrightarrow>
              activation e (registered_layers e ! i) x = Inr (encs ! i))"
proof -
  have wf: "well_formed TensorKey e" using assms(1,2) by (rule reachable_well_formed)
  then have "distinct (registered_layers e)" "distinct (children_names e)" "coherent TensorKey e"
    by (simp_all add: well_formed_def)
  then show ?thesis
    using assms(3,4) coherent_map_of [of TensorKey e x] by (intro encode_result(1)) simp_all
qed

subsection \<open>The cycle batch samplers\<close>











text \<open>
  Claim C10, as amended. The constructor of the infinite sampler checks nothing: for
  every length of the data source, zero included, and every batch size, it returns the
  sampler that holds the two values.
\<close>

theorem InfiniteCycleBatchSampler_no_validation:
  "\<exists>s. InfiniteCycleBatchSampler ds bs = Inr s \<and> data_source s = ds \<and> batch_size s = bs"
  by (simp add: InfiniteCycleBatchSampler_def)

text \<open>
  Claim C10, as stated, fails: constructing the sampler over an empty data source raises
  nothing.
\<close>

theorem InfiniteCycleBatchSampler_empty_accepted:
  "InfiniteCycleBatchSampler 0 1 = Inr \<lparr>data_source = 0, batch_size = 1\<rparr>"
  by (simp add: InfiniteCycleBatchSampler_def)

end
